theory Spec2Isabelle
  imports Main "HOL-Library.Word" "HOL-Library.Signed_Division"
begin

unbundle bit_operations_syntax

section \<open>Conventions\<close>

text \<open>
  The development embeds the parts of \<^verbatim>\<open>starcode.c\<close> that the specification makes
  claims about. C \<^verbatim>\<open>int\<close> values are values of \<^typ>\<open>int\<close>, and the C operators
  \<^verbatim>\<open>/\<close> and \<^verbatim>\<open>%\<close> are the truncating \<open>sdiv\<close> and \<open>smod\<close>. Indices, counts
  and lengths are those of an input held in memory and stay far below the width of an
  \<^verbatim>\<open>int\<close>. Two computations can leave that width on inputs the program accepts: the
  number of tries, three times a thread budget given on the command line, and the
  identifier of a k-mer, which gains two bits per letter. Their results are wrapped to 32
  bits in two's complement by \<open>int32\<close>, which is what the compiled program computes.
  Memory allocation is assumed to succeed. A read outside an allocated object has no
  defined result in C; the models return an error value there.
\<close>

definition int32 :: "int \<Rightarrow> int" where
  "int32 x = sint (word_of_int x :: 32 word)"

section \<open>Parameters chosen by \<^verbatim>\<open>starcode\<close>\<close>

text \<open>
  Lines 60--65 of the source: the number of tries computed from the thread budget, with the
  fall-back to one trie and one thread when there are fewer unique sequences than tries.
  The product and the sum are 32-bit operations. The result is the pair
  \<open>(ntries, thrmax)\<close>.
\<close>

definition starcode_ntries :: "int \<Rightarrow> int \<Rightarrow> int \<times> int" where
  "starcode_ntries nitems thrmax =
     (let ntries = int32 (int32 (3 * thrmax) + (if thrmax smod 2 = 0 then 1 else 0))
      in if nitems < ntries then (1, 1) else (ntries, thrmax))"

text \<open>Lines 69--76: the distance threshold, computed from the median length in auto mode.\<close>

definition starcode_tau :: "int \<Rightarrow> int \<Rightarrow> int" where
  "starcode_tau tau med =
     (if tau < 0 then (if med > 160 then 8 else 2 + med sdiv 30) else tau)"

section \<open>The lookup filter: construction\<close>

text \<open>
  \<^verbatim>\<open>lookup_t\<close>: the padded sequence length, the number of k-mers, their lengths and one
  bitmap (an array of bytes) per k-mer.
\<close>

record lookup =
  lut_slen :: int
  lut_kmers :: int
  lut_klen :: "int list"
  lut_bits :: "8 word list list"

text \<open>
  The loop \<^verbatim>\<open>for (i = 0; i < tau + 1; i++) klen[i] = k - (rem-- > 0)\<close>, with the
  number of remaining iterations as third argument.
\<close>

fun klen_loop :: "int \<Rightarrow> int \<Rightarrow> nat \<Rightarrow> int list" where
  "klen_loop k rem 0 = []"
| "klen_loop k rem (Suc n) = (k - (if rem > 0 then 1 else 0)) # klen_loop k (rem - 1) n"

text \<open>
  \<^verbatim>\<open>new_lookup\<close>. The constant \<^verbatim>\<open>MAX_K_FOR_LOOKUP\<close> is declared in a header that is
  not part of the sources at hand; it is the parameter \<open>maxk\<close>. Bitmap \<open>i\<close> is
  \<^verbatim>\<open>calloc(1 << max(0, 2*klen[i] - 3), 1)\<close>: that many zero bytes.
\<close>

definition new_lookup :: "int \<Rightarrow> int \<Rightarrow> int \<Rightarrow> int \<Rightarrow> lookup" where
  "new_lookup maxk slen maxlen tau =
     (let k = slen sdiv (tau + 1);
          rem = tau - slen smod (tau + 1);
          kl = (if k > maxk then replicate (nat (tau + 1)) maxk
                else klen_loop k rem (nat (tau + 1)))
      in \<lparr> lut_slen = maxlen, lut_kmers = tau + 1, lut_klen = kl,
           lut_bits = map (\<lambda>n. replicate (2 ^ nat (max 0 (2 * n - 3))) 0) kl \<rparr>)"

section \<open>The multithreading plan\<close>

datatype trie_flag = TRIE_FREE | TRIE_BUSY | TRIE_DONE

text \<open>
  \<^verbatim>\<open>mtjob_t\<close>, \<^verbatim>\<open>mttrie_t\<close> and \<^verbatim>\<open>mtplan_t\<close>. The pointers that all jobs of a plan
  share (the sequence stack, the mutexes, the counters of the plan) are left out; the
  filter shared by the jobs of one trie is kept with the trie.
\<close>

record mtjob =
  job_start :: int
  job_end :: int
  job_tau :: int
  job_build :: bool
  job_queryid :: int
  job_trieid :: int

record mttrie =
  trie_flag :: trie_flag
  trie_currentjob :: int
  trie_njobs :: int
  trie_jobs :: "mtjob list"
  trie_lut :: lookup

record mtplan =
  plan_active :: int
  plan_ntries :: int
  plan_jobsdone :: int
  plan_tries :: "mttrie list"

text \<open>Lines 343--347: the boundaries of the query blocks, \<open>bounds[0..ntries]\<close>.\<close>

definition plan_bounds :: "int \<Rightarrow> int \<Rightarrow> int list" where
  "plan_bounds nitems ntries =
     (let Q = nitems sdiv ntries; R = nitems smod ntries
      in map (\<lambda>i. Q * i + min i R) [0..ntries])"

text \<open>Lines 380--402: the \<open>j\<close>-th job of trie \<open>i\<close>.\<close>

definition plan_job :: "int list \<Rightarrow> int \<Rightarrow> int \<Rightarrow> int \<Rightarrow> int \<Rightarrow> mtjob" where
  "plan_job bounds tau ntries i j =
     (let idx = (i + j) smod ntries;
          only_if_first_job = (j = 0)
      in \<lparr> job_start = bounds ! nat idx, job_end = bounds ! nat (idx + 1) - 1,
           job_tau = tau, job_build = only_if_first_job,
           job_queryid = idx + 1, job_trieid = i + 1 \<rparr>)"

text \<open>
  \<^verbatim>\<open>plan_mt\<close>, with the number of unique sequences \<open>nitems\<close> in place of the stack
  (the tries and their node arenas are allocated by the trie library and are not
  modelled).
\<close>

definition plan_mt :: "int \<Rightarrow> int \<Rightarrow> int \<Rightarrow> int \<Rightarrow> int \<Rightarrow> int \<Rightarrow> mtplan" where
  "plan_mt maxk tau height medianlen ntries nitems =
     (let bounds = plan_bounds nitems ntries;
          njobs = (ntries + 1) sdiv 2;
          mttries = map (\<lambda>i. \<lparr> trie_flag = TRIE_FREE, trie_currentjob = 0,
                               trie_njobs = njobs,
                               trie_jobs = map (plan_job bounds tau ntries i) [0..njobs - 1],
                               trie_lut = new_lookup maxk medianlen height tau \<rparr>)
                        [0..ntries - 1]
      in \<lparr> plan_active = 0, plan_ntries = ntries, plan_jobsdone = 0,
           plan_tries = mttries \<rparr>)"

text \<open>The job \<^verbatim>\<open>plan->tries[i].jobs[j]\<close>.\<close>

definition the_job :: "mtplan \<Rightarrow> int \<Rightarrow> int \<Rightarrow> mtjob" where
  "the_job plan i j = trie_jobs (plan_tries plan ! nat i) ! nat j"

section \<open>Sequences, strings and errors\<close>

text \<open>
  The ways a run can leave defined behaviour or abort: a read or write outside an array or
  string (\<open>OutOfBounds\<close>), a common-prefix loop of \<^verbatim>\<open>do_query\<close> running past the
  string terminator (\<open>Overrun\<close>), the use of a freed record (\<open>Dangling\<close>), and
  \<^verbatim>\<open>alert(); krash()\<close> (\<open>Krash\<close>).
\<close>

datatype error = OutOfBounds | Overrun | Dangling | Krash

text \<open>
  \<^verbatim>\<open>useq_t\<close>: count, sequence and optional info string (the match tower is not used
  by the functions embedded here). A sequence is the list of its bytes before the
  terminator.
\<close>

record useq =
  useq_count :: int
  useq_seq :: string
  useq_info :: "string option"

text \<open>
  The byte \<^verbatim>\<open>s[p]\<close> of a C string: a byte of the string, the terminator at index
  \<open>length s\<close>, and no defined value elsewhere.
\<close>

definition cstr_at :: "string \<Rightarrow> int \<Rightarrow> error + char" where
  "cstr_at s p =
     (if 0 \<le> p \<and> p < int (length s) then Inr (s ! nat p)
      else if p = int (length s) then Inr (CHR 0x00)
      else Inl OutOfBounds)"

definition strlen :: "string \<Rightarrow> int" where
  "strlen s = int (length s)"

text \<open>Indexing an array of known length: \<^verbatim>\<open>items[i]\<close>.\<close>

definition item_at :: "'a list \<Rightarrow> int \<Rightarrow> error + 'a" where
  "item_at items i =
     (if 0 \<le> i \<and> i < int (length items) then Inr (items ! nat i) else Inl OutOfBounds)"

section \<open>Padding and the median length\<close>

text \<open>The first loop of \<^verbatim>\<open>pad_useq\<close>: the maximum length.\<close>

fun maxlen_loop :: "useq list \<Rightarrow> int \<Rightarrow> int" where
  "maxlen_loop [] maxlen = maxlen"
| "maxlen_loop (u # us) maxlen =
     (let len = strlen (useq_seq u)
      in maxlen_loop us (if len > maxlen then len else maxlen))"

text \<open>
  The second loop: count the lengths (\<^verbatim>\<open>count[len]++\<close>, in an array of
  \<open>maxlen + 1\<close> counters, where no length exceeds \<open>maxlen\<close>) and pad the shorter
  sequences on the left with spaces.
\<close>

fun pad_loop :: "int \<Rightarrow> useq list \<Rightarrow> int list \<Rightarrow> useq list \<times> int list" where
  "pad_loop maxlen [] count = ([], count)"
| "pad_loop maxlen (u # us) count =
     (let len = strlen (useq_seq u);
          count' = count[nat len := count ! nat len + 1];
          u' = (if len = maxlen then u
                else u\<lparr>useq_seq := replicate (nat (maxlen - len)) CHR '' '' @ useq_seq u\<rparr>);
          (us', count'') = pad_loop maxlen us count'
      in (u' # us', count''))"

text \<open>
  The loop \<^verbatim>\<open>do ccount += count[++median]; while (ccount < nitems / 2)\<close> (on the
  median behind the pointer). The array \<open>count\<close> has \<open>maxlen + 1\<close> entries; the source
  does not test the index.
\<close>

function median_loop :: "int list \<Rightarrow> int \<Rightarrow> int \<Rightarrow> int \<Rightarrow> error + int" where
  "median_loop count half median ccount =
     (let median' = median + 1
      in if 0 \<le> median' \<and> median' < int (length count)
         then (let ccount' = ccount + count ! nat median'
               in if ccount' < half then median_loop count half median' ccount'
                  else Inr median')
         else Inl OutOfBounds)"
  by pat_completeness auto
termination
  by (relation "measure (\<lambda>(count, half, median, ccount). nat (int (length count) - median))") auto

text \<open>\<^verbatim>\<open>pad_useq\<close>: the result is the height, the median and the padded stack.\<close>

definition pad_useq :: "useq list \<Rightarrow> error + (int \<times> int \<times> useq list)" where
  "pad_useq useqS =
     (let maxlen = maxlen_loop useqS 0;
          (padded, count) = pad_loop maxlen useqS (replicate (nat (maxlen + 1)) 0)
      in case median_loop count (int (length useqS) sdiv 2) 0 0 of
           Inl e \<Rightarrow> Inl e
         | Inr median \<Rightarrow> Inr (maxlen, median, padded))"


text \<open>
  For the statement of the median: the number of records whose sequence length lies
  between \<open>lo\<close> and \<open>hi\<close>.
\<close>

definition lencount :: "useq list \<Rightarrow> int \<Rightarrow> int \<Rightarrow> int" where
  "lencount useqS lo hi =
     int (length (filter (\<lambda>u. lo \<le> strlen (useq_seq u) \<and> strlen (useq_seq u) \<le> hi) useqS))"

section \<open>The lookup filter: insertion and search\<close>

text \<open>
  \<^verbatim>\<open>seq2id(seq + p, slen)\<close>. The loop counter is replaced by the number \<open>n\<close> of
  remaining characters, so \<^verbatim>\<open>if (i < slen - 1) seqid <<= 2\<close> shifts when characters
  remain after the current one. \<^verbatim>\<open>seqid\<close> is a 32-bit \<^verbatim>\<open>int\<close>: the additions and the
  shift wrap around.
\<close>

definition shift2 :: "nat \<Rightarrow> int \<Rightarrow> int" where
  "shift2 n seqid = (if n > 0 then int32 (seqid * 4) else seqid)"

fun seq2id_loop :: "string \<Rightarrow> int \<Rightarrow> nat \<Rightarrow> int \<Rightarrow> error + int" where
  "seq2id_loop s p 0 seqid = Inr seqid"
| "seq2id_loop s p (Suc n) seqid =
     (case cstr_at s p of
        Inl e \<Rightarrow> Inl e
      | Inr c \<Rightarrow>
          if c = CHR ''A'' \<or> c = CHR ''a'' \<or> c = CHR '' '' then
            seq2id_loop s (p + 1) n (shift2 n seqid)
          else if c = CHR ''C'' \<or> c = CHR ''c'' then
            seq2id_loop s (p + 1) n (shift2 n (int32 (seqid + 1)))
          else if c = CHR ''G'' \<or> c = CHR ''g'' then
            seq2id_loop s (p + 1) n (shift2 n (int32 (seqid + 2)))
          else if c = CHR ''T'' \<or> c = CHR ''t'' then
            seq2id_loop s (p + 1) n (shift2 n (int32 (seqid + 3)))
          else Inr (if c = CHR 0x00 then - 2 else - 1))"

definition seq2id :: "string \<Rightarrow> int \<Rightarrow> int \<Rightarrow> error + int" where
  "seq2id s off slen = seq2id_loop s off (nat slen) 0"

text \<open>
  The bitmap operations \<^verbatim>\<open>lut[i][seqid/8] |= (1 << (seqid%8))\<close> and
  \<^verbatim>\<open>(lut[i][seqid/8] >> (seqid%8)) & 1\<close> on an array of bytes.
\<close>

definition bitmap_set :: "8 word list \<Rightarrow> int \<Rightarrow> error + 8 word list" where
  "bitmap_set bm seqid =
     (if 0 \<le> seqid sdiv 8 \<and> seqid sdiv 8 < int (length bm)
      then Inr (bm[nat (seqid sdiv 8) := bm ! nat (seqid sdiv 8) OR push_bit (nat (seqid smod 8)) 1])
      else Inl OutOfBounds)"

definition bitmap_get :: "8 word list \<Rightarrow> int \<Rightarrow> error + bool" where
  "bitmap_get bm seqid =
     (if 0 \<le> seqid sdiv 8 \<and> seqid sdiv 8 < int (length bm)
      then Inr (bit (drop_bit (nat (seqid smod 8)) (bm ! nat (seqid sdiv 8)) AND 1) 0)
      else Inl OutOfBounds)"

text \<open>
  \<^verbatim>\<open>lut_insert\<close>: the loop \<^verbatim>\<open>for (i = kmers - 1; i >= 0; i--)\<close> is a recursion on
  \<open>i + 1\<close>. The result is the returned value and the updated filter.
\<close>

fun lut_insert_loop :: "lookup \<Rightarrow> string \<Rightarrow> nat \<Rightarrow> int \<Rightarrow> error + (int \<times> lookup)" where
  "lut_insert_loop L q 0 offset = Inr (0, L)"
| "lut_insert_loop L q (Suc i) offset =
     (let offset' = offset - lut_klen L ! i
      in case seq2id q offset' (lut_klen L ! i) of
           Inl e \<Rightarrow> Inl e
         | Inr seqid \<Rightarrow>
             if seqid \<ge> 0 then
               (case bitmap_set (lut_bits L ! i) seqid of
                  Inl e \<Rightarrow> Inl e
                | Inr bm \<Rightarrow> lut_insert_loop (L\<lparr>lut_bits := (lut_bits L)[i := bm]\<rparr>) q i offset')
             else if seqid = - 2 then Inr (1, L)
             else lut_insert_loop L q i offset')"

definition lut_insert :: "lookup \<Rightarrow> useq \<Rightarrow> error + (int \<times> lookup)" where
  "lut_insert L query = lut_insert_loop L (useq_seq query) (nat (lut_kmers L)) (lut_slen L)"

text \<open>
  \<^verbatim>\<open>lut_search\<close>: the inner loop over the shifts \<open>j\<close> (with the number of remaining
  shifts as last argument) yields \<open>Some r\<close> when the function returns \<open>r\<close> from inside
  it; the outer loop is as in \<^verbatim>\<open>lut_insert\<close>.
\<close>

fun lut_search_inner :: "lookup \<Rightarrow> string \<Rightarrow> nat \<Rightarrow> int \<Rightarrow> int \<Rightarrow> nat \<Rightarrow> error + int option" where
  "lut_search_inner L q i offset j 0 = Inr None"
| "lut_search_inner L q i offset j (Suc n) =
     (case seq2id q (offset + j) (lut_klen L ! i) of
        Inl e \<Rightarrow> Inl e
      | Inr seqid \<Rightarrow>
          if seqid = - 2 then Inr (Some (- 1))
          else if seqid = - 1 then lut_search_inner L q i offset (j + 1) n
          else (case bitmap_get (lut_bits L ! i) seqid of
                  Inl e \<Rightarrow> Inl e
                | Inr b \<Rightarrow> if b then Inr (Some 1)
                           else lut_search_inner L q i offset (j + 1) n))"

fun lut_search_loop :: "lookup \<Rightarrow> string \<Rightarrow> nat \<Rightarrow> int \<Rightarrow> error + int" where
  "lut_search_loop L q 0 offset = Inr 0"
| "lut_search_loop L q (Suc i) offset =
     (let offset' = offset - lut_klen L ! i;
          d = lut_kmers L - 1 - int i
      in case lut_search_inner L q i offset' (- d) (nat (2 * d + 1)) of
           Inl e \<Rightarrow> Inl e
         | Inr (Some r) \<Rightarrow> Inr r
         | Inr None \<Rightarrow> lut_search_loop L q i offset')"

definition lut_search :: "lookup \<Rightarrow> useq \<Rightarrow> error + int" where
  "lut_search L query = lut_search_loop L (useq_seq query) (nat (lut_kmers L)) (lut_slen L)"

section \<open>The worker\<close>

lemma cstr_at_InrD: "cstr_at s p = Inr c \<Longrightarrow> 0 \<le> p \<and> p \<le> int (length s)"
  by (auto simp: cstr_at_def split: if_splits)

text \<open>The loops \<^verbatim>\<open>while (a[t] == b[t]) t++\<close> of \<^verbatim>\<open>do_query\<close>.\<close>

function prefix_loop :: "string \<Rightarrow> string \<Rightarrow> int \<Rightarrow> error + int" where
  "prefix_loop a b t =
     (case cstr_at a t of
        Inl e \<Rightarrow> Inl Overrun
      | Inr x \<Rightarrow>
          (case cstr_at b t of
             Inl e \<Rightarrow> Inl Overrun
           | Inr y \<Rightarrow> if x = y then prefix_loop a b (t + 1) else Inr t))"
  by pat_completeness auto
termination
  by (relation "measure (\<lambda>(a, b, t). nat (int (length a) + 1 - t))")
     (auto dest: cstr_at_InrD)

text \<open>
  The state of the loop of \<^verbatim>\<open>do_query\<close>: the filter, \<^verbatim>\<open>last_query\<close>, and the calls
  made to the trie search, each recorded as \<open>(i, start, trail)\<close>. The trie itself is
  behind an interface outside these sources: its insertion and search are taken to
  succeed, and the pairs it reports are not modelled.
\<close>

record query_state =
  qs_lut :: lookup
  qs_last_query :: "useq option"
  qs_searches :: "(int \<times> int \<times> int) list"

text \<open>Lines 198--213: \<open>trail\<close> and \<open>start\<close>.\<close>

definition search_hints :: "mtjob \<Rightarrow> useq list \<Rightarrow> int \<Rightarrow> useq \<Rightarrow> useq option \<Rightarrow> error + (int \<times> int)" where
  "search_hints job items i query last_query =
     (case (if i < job_end job
            then (case item_at items (i + 1) of
                    Inl e \<Rightarrow> Inl e
                  | Inr next_query \<Rightarrow> prefix_loop (useq_seq query) (useq_seq next_query) 0)
            else Inr 0) of
        Inl e \<Rightarrow> Inl e
      | Inr trail \<Rightarrow>
          (case (case last_query of
                   None \<Rightarrow> Inr 0
                 | Some lq \<Rightarrow> prefix_loop (useq_seq query) (useq_seq lq) 0) of
             Inl e \<Rightarrow> Inl e
           | Inr start \<Rightarrow> Inr (start, trail)))"

text \<open>Lines 185--195: on a build job the query enters the filter.\<close>

definition build_step :: "mtjob \<Rightarrow> lookup \<Rightarrow> useq \<Rightarrow> error + lookup" where
  "build_step job L query =
     (if job_build job
      then (case lut_insert L query of
              Inl e \<Rightarrow> Inl e
            | Inr (r, L') \<Rightarrow> if r \<noteq> 0 then Inl Krash else Inr L')
      else Inr L)"

function do_query_loop :: "mtjob \<Rightarrow> useq list \<Rightarrow> int \<Rightarrow> query_state \<Rightarrow> error + query_state" where
  "do_query_loop job items i st =
     (if i \<le> job_end job then
        (case item_at items i of
           Inl e \<Rightarrow> Inl e
         | Inr query \<Rightarrow>
             (case lut_search (qs_lut st) query of
                Inl e \<Rightarrow> Inl e
              | Inr found \<Rightarrow>
                  (case build_step job (qs_lut st) query of
                     Inl e \<Rightarrow> Inl e
                   | Inr L' \<Rightarrow>
                       if found = 1 then
                         (case search_hints job items i query (qs_last_query st) of
                            Inl e \<Rightarrow> Inl e
                          | Inr (start, trail) \<Rightarrow>
                              do_query_loop job items (i + 1)
                                \<lparr> qs_lut = L', qs_last_query = Some query,
                                  qs_searches = qs_searches st @ [(i, start, trail)] \<rparr>)
                       else do_query_loop job items (i + 1) (st\<lparr>qs_lut := L'\<rparr>))))
      else Inr st)"
  by pat_completeness auto
termination
  by (relation "measure (\<lambda>(job, items, i, st). nat (job_end job + 1 - i))") auto

definition do_query :: "mtjob \<Rightarrow> useq list \<Rightarrow> lookup \<Rightarrow> error + query_state" where
  "do_query job items L =
     do_query_loop job items (job_start job)
       \<lparr> qs_lut = L, qs_last_query = None, qs_searches = [] \<rparr>"


section \<open>Sorting and merging duplicates\<close>

text \<open>
  The arrays sorted by \<^verbatim>\<open>seqsort\<close> hold pointers to records: an address or
  \<^verbatim>\<open>NULL\<close>. The records live in a heap, where a freed address holds nothing.
  A pointer into an array together with a size is the slice of the array it designates:
  \<^verbatim>\<open>sortargs_t\<close> carries the slices of the two buffers.
\<close>

type_synonym addr = nat
type_synonym heap = "addr \<Rightarrow> useq option"
type_synonym slots = "addr option list"

record sortargs =
  sa_buf0 :: slots
  sa_buf1 :: slots
  sa_size :: int
  sa_b :: int
  sa_thread :: int
  sa_repeats :: int

text \<open>\<^verbatim>\<open>strcmp\<close>, up to the sign of the result: bytes compare as unsigned values.\<close>

fun strcmp :: "string \<Rightarrow> string \<Rightarrow> int" where
  "strcmp [] [] = 0"
| "strcmp [] (y # ys) = - 1"
| "strcmp (x # xs) [] = 1"
| "strcmp (x # xs) (y # ys) =
     (if x = y then strcmp xs ys
      else if (of_char x :: nat) < of_char y then - 1 else 1)"

text \<open>
  \<^verbatim>\<open>memcpy(dst + d, src + s, n)\<close>, \<^verbatim>\<open>memset(dst + d, 0, n)\<close> and
  \<^verbatim>\<open>dst[d] = v\<close> on arrays of known length, counted in elements.
\<close>

definition memcpy :: "'a list \<Rightarrow> int \<Rightarrow> 'a list \<Rightarrow> int \<Rightarrow> int \<Rightarrow> error + 'a list" where
  "memcpy dst d src s n =
     (if 0 \<le> n \<and> 0 \<le> d \<and> d + n \<le> int (length dst) \<and> 0 \<le> s \<and> s + n \<le> int (length src)
      then Inr (take (nat d) dst @ take (nat n) (drop (nat s) src) @ drop (nat (d + n)) dst)
      else Inl OutOfBounds)"

definition memset_null :: "slots \<Rightarrow> int \<Rightarrow> int \<Rightarrow> error + slots" where
  "memset_null dst d n =
     (if 0 \<le> n \<and> 0 \<le> d \<and> d + n \<le> int (length dst)
      then Inr (take (nat d) dst @ replicate (nat n) None @ drop (nat (d + n)) dst)
      else Inl OutOfBounds)"

definition store_at :: "'a list \<Rightarrow> int \<Rightarrow> 'a \<Rightarrow> error + 'a list" where
  "store_at dst d v =
     (if 0 \<le> d \<and> d < int (length dst) then Inr (dst[nat d := v]) else Inl OutOfBounds)"

text \<open>Lines 573--576: shorter sequences first, then byte order.\<close>

definition compare_useq :: "useq \<Rightarrow> useq \<Rightarrow> int" where
  "compare_useq ul ur =
     (let sl = strlen (useq_seq ul); sr = strlen (useq_seq ur)
      in if sl = sr then strcmp (useq_seq ul) (useq_seq ur)
         else if sl < sr then - 1 else 1)"

text \<open>
  Lines 556--589: the merge loop, from the slices \<open>l\<close> and \<open>r\<close> into \<open>buf\<close>. The test
  of line 568 can never hold after the two before it and is left out. The field
  \<^verbatim>\<open>count\<close> is a 32-bit \<^verbatim>\<open>int\<close> (the structure is declared in a header that is not
  part of the sources at hand): the sum of two counts wraps around.
\<close>

function merge_loop ::
  "heap \<Rightarrow> slots \<Rightarrow> slots \<Rightarrow> slots \<Rightarrow> int \<Rightarrow> int \<Rightarrow> int \<Rightarrow> int \<Rightarrow> int \<Rightarrow> int \<Rightarrow> int
     \<Rightarrow> error + (heap \<times> slots \<times> int)" where
  "merge_loop h l r buf size1 size2 sz i j idx repeats =
     (if 0 \<le> i \<and> 0 \<le> j \<and> i + j < sz then
        (case (if j = size2 then Inr None else item_at r j) of
           Inl e \<Rightarrow> Inl e
         | Inr None \<Rightarrow>
             (case memcpy buf idx l i (size1 - i) of
                Inl e \<Rightarrow> Inl e
              | Inr buf' \<Rightarrow> Inr (h, buf', repeats))
         | Inr (Some ur) \<Rightarrow>
             (case (if i = size1 then Inr None else item_at l i) of
                Inl e \<Rightarrow> Inl e
              | Inr None \<Rightarrow>
                  (case memcpy buf idx r j (size2 - j) of
                     Inl e \<Rightarrow> Inl e
                   | Inr buf' \<Rightarrow> Inr (h, buf', repeats))
              | Inr (Some ul) \<Rightarrow>
                  (case (h ul, h ur) of
                     (Some vl, Some vr) \<Rightarrow>
                       (let cmp = compare_useq vl vr
                        in if cmp = 0 then
                             (case store_at buf idx (Some ul) of
                                Inl e \<Rightarrow> Inl e
                              | Inr buf' \<Rightarrow>
                                  (let h1 = h(ul \<mapsto> vl\<lparr>useq_count := int32 (useq_count vl + useq_count vr)\<rparr>)
                                   in case h1 ur of
                                        None \<Rightarrow> Inl Dangling
                                      | Some _ \<Rightarrow>
                                          merge_loop (h1(ur := None)) l r buf' size1 size2 sz
                                            (i + 1) (j + 1) (idx + 1) (repeats + 1)))
                           else if cmp < 0 then
                             (case store_at buf idx (Some ul) of
                                Inl e \<Rightarrow> Inl e
                              | Inr buf' \<Rightarrow>
                                  merge_loop h l r buf' size1 size2 sz (i + 1) j (idx + 1) repeats)
                           else
                             (case store_at buf idx (Some ur) of
                                Inl e \<Rightarrow> Inl e
                              | Inr buf' \<Rightarrow>
                                  merge_loop h l r buf' size1 size2 sz i (j + 1) (idx + 1) repeats))
                   | _ \<Rightarrow> Inl Dangling)))
      else Inr (h, buf, repeats))"
  by pat_completeness auto
termination
  by (relation "measure (\<lambda>(h, l, r, buf, size1, size2, sz, i, j, idx, repeats). nat (sz - (i + j)))")
     auto

text \<open>Lines 517--522 and 527: the arguments of the two recursive calls.\<close>

definition next_level :: "sortargs \<Rightarrow> sortargs \<times> sortargs" where
  "next_level sortargs =
     (let half = sa_size sortargs sdiv 2;
          b' = (sa_b sortargs + 1) smod 2;
          thread' = (if sa_thread sortargs \<noteq> 0 then sa_thread sortargs - 1
                     else sa_thread sortargs);
          arg1 = sortargs\<lparr> sa_buf0 := take (nat half) (sa_buf0 sortargs),
                           sa_buf1 := take (nat half) (sa_buf1 sortargs),
                           sa_size := half, sa_b := b', sa_thread := thread' \<rparr>;
          arg2 = sortargs\<lparr> sa_buf0 := drop (nat half) (sa_buf0 sortargs),
                           sa_buf1 := drop (nat half) (sa_buf1 sortargs),
                           sa_size := half + sa_size sortargs smod 2, sa_b := b',
                           sa_thread := thread' \<rparr>
      in (arg1, arg2))"

text \<open>
  Lines 545--596: after the recursive calls have returned with \<open>arg1\<close> and \<open>arg2\<close>,
  merge their results, accumulate the repeats and pad with \<^verbatim>\<open>NULL\<close>.
\<close>

definition merge_level :: "heap \<Rightarrow> sortargs \<Rightarrow> sortargs \<Rightarrow> sortargs \<Rightarrow> error + (heap \<times> sortargs)" where
  "merge_level h sortargs arg1 arg2 =
     (let buf0 = sa_buf0 arg1 @ sa_buf0 arg2;
          buf1 = sa_buf1 arg1 @ sa_buf1 arg2;
          l = (if sa_b sortargs \<noteq> 0 then sa_buf0 arg1 else sa_buf1 arg1);
          r = (if sa_b sortargs \<noteq> 0 then sa_buf0 arg2 else sa_buf1 arg2);
          buf = (if sa_b sortargs \<noteq> 0 then buf1 else buf0)
      in case merge_loop h l r buf (sa_size arg1) (sa_size arg2) (sa_size sortargs) 0 0 0 0 of
           Inl e \<Rightarrow> Inl e
         | Inr (h', buf', repeats) \<Rightarrow>
             (let total = repeats + sa_repeats arg1 + sa_repeats arg2;
                  offset = sa_size sortargs - total
              in case memset_null buf' offset total of
                   Inl e \<Rightarrow> Inl e
                 | Inr buf'' \<Rightarrow>
                     Inr (h', if sa_b sortargs \<noteq> 0
                              then sortargs\<lparr> sa_buf0 := buf0, sa_buf1 := buf'',
                                             sa_repeats := total \<rparr>
                              else sortargs\<lparr> sa_buf0 := buf'', sa_buf1 := buf1,
                                             sa_repeats := total \<rparr>)))"

text \<open>
  \<^verbatim>\<open>nukesort\<close>. The two recursive calls work on disjoint slices and on the records
  these point to, and the caller waits for both: running them in two threads or one after
  the other gives the same memory, so both branches of line 525 are the sequential
  composition.
\<close>

function nukesort :: "heap \<times> sortargs \<Rightarrow> error + (heap \<times> sortargs)" where
  "nukesort (h, sortargs) =
     (if sa_size sortargs < 2 then Inr (h, sortargs)
      else
        (case nukesort (h, fst (next_level sortargs)) of
           Inl e \<Rightarrow> Inl e
         | Inr (h1, arg1) \<Rightarrow>
             (case nukesort (h1, snd (next_level sortargs)) of
                Inl e \<Rightarrow> Inl e
              | Inr (h2, arg2) \<Rightarrow> merge_level h2 sortargs arg1 arg2)))"
  by pat_completeness auto
termination
proof (relation "measure (\<lambda>(h, sortargs). nat (sa_size sortargs))", goal_cases)
  case 1
  show ?case by simp
next
  case (2 h sortargs)
  then show ?case by (simp add: next_level_def Let_def signed_divide_int_def sgn_if)
next
  case (3 h sortargs x y z)
  then have "2 \<le> sa_size sortargs" by simp
  then have "sa_size sortargs sdiv 2 + sa_size sortargs smod 2 < sa_size sortargs"
    by (simp add: signed_divide_int_def signed_modulo_int_def sgn_if) presburger
  then show ?case using 3 by (simp add: next_level_def Let_def)
qed

text \<open>Line 483: \<^verbatim>\<open>while ((thrmax >> (args.thread + 1)) > 0) args.thread++\<close>.\<close>

function thread_depth :: "int \<Rightarrow> int \<Rightarrow> int" where
  "thread_depth thrmax thread =
     (if 0 \<le> thread \<and> drop_bit (nat (thread + 1)) thrmax > 0
      then thread_depth thrmax (thread + 1) else thread)"
  by pat_completeness auto
termination
proof (relation "measure (\<lambda>(thrmax, thread). nat (thrmax - thread))", goal_cases)
  case 1
  show ?case by simp
next
  case (2 thrmax thread)
  then have pos: "0 < thrmax div 2 ^ nat (thread + 1)" by (simp add: drop_bit_eq_div)
  have "2 ^ nat (thread + 1) \<le> thrmax"
    using pos by (simp add: pos_imp_zdiv_pos_iff)
  moreover have "int (nat (thread + 1)) < 2 ^ nat (thread + 1)"
  proof -
    have "nat (thread + 1) < 2 ^ nat (thread + 1)" by (rule less_exp)
    then have "int (nat (thread + 1)) < int (2 ^ nat (thread + 1))"
      by (simp only: of_nat_less_iff)
    then show ?thesis by simp
  qed
  ultimately show ?case using 2 by simp
qed

text \<open>
  \<^verbatim>\<open>seqsort\<close>: the result is the heap, the array \<open>data\<close> and the returned number of
  unique records.
\<close>

definition seqsort :: "heap \<Rightarrow> slots \<Rightarrow> int \<Rightarrow> int \<Rightarrow> error + (heap \<times> slots \<times> int)" where
  "seqsort h data numels thrmax =
     (case memcpy (replicate (nat numels) None) 0 data 0 numels of
        Inl e \<Rightarrow> Inl e
      | Inr buffer \<Rightarrow>
          (let args = \<lparr> sa_buf0 = data, sa_buf1 = buffer, sa_size = numels, sa_b = 0,
                        sa_thread = thread_depth thrmax 0, sa_repeats = 0 \<rparr>
           in case nukesort (h, args) of
                Inl e \<Rightarrow> Inl e
              | Inr (h', res) \<Rightarrow> Inr (h', sa_buf0 res, numels - sa_repeats res)))"

section \<open>Notions for the statements about the filter\<close>

text \<open>
  These are not functions of the source. A C string holds no zero byte; the characters
  that \<^verbatim>\<open>seq2id\<close> encodes, and their codes; the offset at which \<^verbatim>\<open>lut_insert\<close> reads
  k-mer \<open>i\<close> (the length of the filter minus the lengths of the k-mers from \<open>i\<close> on) and
  the identifier \<^verbatim>\<open>seq2id\<close> computes there; and a filter allocated as \<^verbatim>\<open>new_lookup\<close>
  does: \<open>kmers\<close> lengths, \<open>kmers\<close> bitmaps, bitmap \<open>i\<close> of
  \<open>2 ^ max 0 (2 * klen[i] - 3)\<close> bytes.
\<close>

definition valid_base :: "char \<Rightarrow> bool" where
  "valid_base c \<longleftrightarrow> c \<in> set ''AaCcGgTt ''"

definition kmer_offset :: "lookup \<Rightarrow> nat \<Rightarrow> int" where
  "kmer_offset L i = lut_slen L - sum_list (drop i (lut_klen L))"

definition kmer_id :: "lookup \<Rightarrow> string \<Rightarrow> nat \<Rightarrow> error + int" where
  "kmer_id L q i = seq2id q (kmer_offset L i) (lut_klen L ! i)"

definition base_code :: "char \<Rightarrow> int option" where
  "base_code c =
     (if c = CHR ''A'' \<or> c = CHR ''a'' \<or> c = CHR '' '' then Some 0
      else if c = CHR ''C'' \<or> c = CHR ''c'' then Some 1
      else if c = CHR ''G'' \<or> c = CHR ''g'' then Some 2
      else if c = CHR ''T'' \<or> c = CHR ''t'' then Some 3
      else None)"

definition cstring :: "string \<Rightarrow> bool" where
  "cstring s \<longleftrightarrow> CHR 0x00 \<notin> set s"

definition lut_wf :: "lookup \<Rightarrow> bool" where
  "lut_wf L \<longleftrightarrow>
     length (lut_klen L) = nat (lut_kmers L) \<and> length (lut_bits L) = nat (lut_kmers L) \<and>
     (\<forall>i<nat (lut_kmers L). length (lut_bits L ! i) = 2 ^ nat (max 0 (2 * lut_klen L ! i - 3)))"

text \<open>
  For the statement about the worker: the hints of every recorded search are not negative
  and, when the common length \<open>n\<close> is positive, less than \<open>n\<close>.
\<close>

definition hints_ok :: "nat \<Rightarrow> (int \<times> int \<times> int) list \<Rightarrow> bool" where
  "hints_ok n searches \<longleftrightarrow>
     (\<forall>(i, start, trail)\<in>set searches.
        0 \<le> start \<and> 0 \<le> trail \<and> (0 < n \<longrightarrow> start < int n \<and> trail < int n))"

section \<open>Notions for the statement about false negatives\<close>

text \<open>
  Modelled from the spec: the edit distance that the specification names
  \<^verbatim>\<open>edit_distance\<close> is the Levenshtein distance, the least number of insertions,
  deletions and substitutions of single characters that turn one string into the other.
  The trie that computes it is not part of the sources.
\<close>

fun edit_distance :: "'a list \<Rightarrow> 'a list \<Rightarrow> nat" where
  "edit_distance [] ys = length ys"
| "edit_distance xs [] = length xs"
| "edit_distance (x # xs) (y # ys) =
     min (min (edit_distance xs (y # ys) + 1) (edit_distance (x # xs) ys + 1))
         (edit_distance xs ys + (if x = y then 0 else 1))"






section \<open>Truncating division on non-negative operands\<close>

lemma sdiv_nonneg_eq: "0 \<le> (a::int) \<Longrightarrow> 0 < b \<Longrightarrow> a sdiv b = a div b"
  by (simp add: signed_divide_int_def sgn_if)

lemma smod_nonneg_eq: "0 \<le> (a::int) \<Longrightarrow> 0 < b \<Longrightarrow> a smod b = a mod b"
  by (simp add: signed_modulo_int_def sgn_if)

section \<open>Values inside the 32-bit range\<close>

lemma int32_id: "- (2 ^ 31) \<le> x \<Longrightarrow> x < 2 ^ 31 \<Longrightarrow> int32 x = x"
  unfolding int32_def by (simp add: sint_sbintrunc' signed_take_bit_int_eq_self)

section \<open>The parameters chosen by \<^verbatim>\<open>starcode\<close>: proofs\<close>

text \<open>
  The number of tries leaves the 32-bit range from a budget of 715827883 threads on: with
  three unique sequences the comparison then sees a negative number and keeps it.
\<close>

lemma starcode_ntries_overflow:
  "starcode_ntries 3 715827883 = (- 2147483647, 715827883)"
  by (simp add: starcode_ntries_def int32_def signed_modulo_int_def)

text \<open>
  Claim C9, as amended. For a thread budget \<open>T\<close> with \<open>1 \<le> T \<le> 715827882\<close> (the
  budgets for which \<open>3 T + [T even]\<close> is a 32-bit \<^verbatim>\<open>int\<close>) and \<open>M\<close> unique sequences,
  the number of tries is \<open>3 T + [T even]\<close> when \<open>M\<close> is at least that number; otherwise
  the plan uses one trie and the thread budget is reset to one. In both cases the number
  of tries is odd.
\<close>

theorem starcode_ntries_odd:
  assumes "1 \<le> T" and "T \<le> 715827882"
  shows "starcode_ntries M T =
           (if M < 3 * T + (if even T then 1 else 0) then (1, 1)
            else (3 * T + (if even T then 1 else 0), T)) \<and>
         odd (fst (starcode_ntries M T))"
proof -
  have "T smod 2 = T mod 2" using assms(1) by (intro smod_nonneg_eq) auto
  then have e: "(T smod 2 = 0) = even T" by (simp add: even_iff_mod_2_eq_zero)
  have m: "int32 (3 * T) = 3 * T" using assms by (intro int32_id) simp_all
  have "T \<noteq> 715827882 \<or> even T" by auto
  then have "3 * T + (if even T then 1 else 0) < 2 ^ 31" using assms(2) by auto
  then have a: "int32 (3 * T + (if even T then 1 else 0)) = 3 * T + (if even T then 1 else 0)"
    using assms(1) by (intro int32_id) auto
  have n: "int32 (int32 (3 * T) + (if T smod 2 = 0 then 1 else 0)) =
      3 * T + (if even T then 1 else 0)"
    unfolding m e by (rule a)
  show ?thesis unfolding starcode_ntries_def Let_def n by simp
qed

theorem starcode_ntries_odd_witness:
  "starcode_ntries 100 2 = (7, 2) \<and> starcode_ntries 100 3 = (9, 3) \<and>
   starcode_ntries 2 1 = (1, 1) \<and> odd (fst (starcode_ntries 100 2)) \<and>
   starcode_ntries 2147483647 715827882 = (2147483647, 715827882)"
proof -
  have h: "(1::int) \<le> 2" "(1::int) \<le> 3" "(1::int) \<le> 1" "(1::int) \<le> 715827882"
    and b: "(2::int) \<le> 715827882" "(3::int) \<le> 715827882" "(1::int) \<le> 715827882"
      "(715827882::int) \<le> 715827882"
    by simp_all
  from starcode_ntries_odd[OF h(1) b(1), of 100] starcode_ntries_odd[OF h(2) b(2), of 100]
    starcode_ntries_odd[OF h(3) b(3), of 2]
    starcode_ntries_odd[OF h(4) b(4), of 2147483647]
  show ?thesis by simp
qed

text \<open>
  The claim as stated fails: with a budget of one thread and two unique sequences the plan
  has one trie, not three.
\<close>

theorem starcode_ntries_counterexample:
  "fst (starcode_ntries 2 1) \<noteq> 3 * 1 + (if even (1::int) then 1 else 0)"
  by (simp add: starcode_ntries_def signed_modulo_int_def int32_def)

text \<open>
  Claim C6. When the caller passes a negative threshold, it becomes 8 if the median length
  exceeds 160 and \<open>2 + median / 30\<close> (truncating division, which is \<open>div\<close> on a
  non-negative median) otherwise; a median of 30 gives 3.
\<close>

theorem starcode_tau_auto:
  assumes "tau < 0"
  shows "starcode_tau tau med = (if med > 160 then 8 else 2 + med sdiv 30) \<and>
         (0 \<le> med \<longrightarrow> med \<le> 160 \<longrightarrow> starcode_tau tau med = 2 + med div 30) \<and>
         starcode_tau tau 30 = 3"
  using assms by (simp add: starcode_tau_def sdiv_nonneg_eq)

theorem starcode_tau_auto_witness:
  "starcode_tau (- 1) 200 = 8 \<and> starcode_tau (- 1) 95 = 5 \<and> starcode_tau (- 1) 30 = 3"
proof -
  have h: "(- 1::int) < 0" by simp
  from starcode_tau_auto[OF h, of 200] starcode_tau_auto[OF h, of 95]
  show ?thesis by (simp add: signed_divide_int_def)
qed

section \<open>The lookup filter: k-mer lengths\<close>

lemma klen_loop_length: "length (klen_loop k r n) = n"
  by (induction n arbitrary: r) auto

lemma klen_loop_nth:
  "i < n \<Longrightarrow> klen_loop k r n ! i = k - (if r - int i > 0 then 1 else 0)"
proof (induction n arbitrary: r i)
  case 0
  then show ?case by simp
next
  case (Suc n)
  show ?case
  proof (cases i)
    case 0
    then show ?thesis by simp
  next
    case (Suc m)
    with Suc.prems have "m < n" by simp
    from Suc.IH[OF this, of "r - 1"] Suc show ?thesis by (simp add: algebra_simps)
  qed
qed

lemma klen_new_lookup_nth:
  assumes "0 \<le> tau" "0 \<le> slen" "0 \<le> i" "i \<le> tau"
  shows "lut_klen (new_lookup maxk slen maxlen tau) ! nat i =
     (if slen div (tau + 1) > maxk then maxk
      else if i < tau - slen mod (tau + 1) then slen div (tau + 1) - 1
      else slen div (tau + 1))"
  using assms
  by (simp add: new_lookup_def Let_def sdiv_nonneg_eq smod_nonneg_eq klen_loop_nth)

text \<open>
  Claim C5, as amended. A filter made by \<^verbatim>\<open>new_lookup\<close> for threshold \<open>tau \<ge> 0\<close> has
  \<open>tau + 1\<close> k-mers. With \<open>k = slen div (tau + 1)\<close>: if \<open>k\<close> exceeds the cap, every
  k-mer has the cap's length; otherwise the first \<open>tau - slen mod (tau + 1)\<close> k-mers have
  length \<open>k - 1\<close> and the others length \<open>k\<close>. So k-mer lengths never decrease with the
  index: the earlier k-mers are the shorter ones.
\<close>

theorem new_lookup_klen:
  assumes "0 \<le> tau" and "0 \<le> slen"
  shows "lut_slen (new_lookup maxk slen maxlen tau) = maxlen \<and>
    lut_kmers (new_lookup maxk slen maxlen tau) = tau + 1 \<and>
    length (lut_klen (new_lookup maxk slen maxlen tau)) = nat (tau + 1) \<and>
    length (lut_bits (new_lookup maxk slen maxlen tau)) = nat (tau + 1) \<and>
    (\<forall>i. 0 \<le> i \<and> i \<le> tau \<longrightarrow>
       lut_klen (new_lookup maxk slen maxlen tau) ! nat i =
         (if slen div (tau + 1) > maxk then maxk
          else if i < tau - slen mod (tau + 1) then slen div (tau + 1) - 1
          else slen div (tau + 1))) \<and>
    (\<forall>i j. 0 \<le> i \<and> i \<le> j \<and> j \<le> tau \<longrightarrow>
       lut_klen (new_lookup maxk slen maxlen tau) ! nat i
         \<le> lut_klen (new_lookup maxk slen maxlen tau) ! nat j)"
proof (intro conjI allI impI)
  show "lut_slen (new_lookup maxk slen maxlen tau) = maxlen"
    by (simp add: new_lookup_def Let_def)
  show "lut_kmers (new_lookup maxk slen maxlen tau) = tau + 1"
    by (simp add: new_lookup_def Let_def)
  show "length (lut_klen (new_lookup maxk slen maxlen tau)) = nat (tau + 1)"
    by (simp add: new_lookup_def Let_def klen_loop_length)
  show "length (lut_bits (new_lookup maxk slen maxlen tau)) = nat (tau + 1)"
    by (simp add: new_lookup_def Let_def klen_loop_length)
next
  fix i assume "0 \<le> i \<and> i \<le> tau"
  then show "lut_klen (new_lookup maxk slen maxlen tau) ! nat i =
         (if slen div (tau + 1) > maxk then maxk
          else if i < tau - slen mod (tau + 1) then slen div (tau + 1) - 1
          else slen div (tau + 1))"
    using assms by (intro klen_new_lookup_nth) auto
next
  fix i j assume ij: "0 \<le> i \<and> i \<le> j \<and> j \<le> tau"
  have a: "lut_klen (new_lookup maxk slen maxlen tau) ! nat i =
     (if slen div (tau + 1) > maxk then maxk
      else if i < tau - slen mod (tau + 1) then slen div (tau + 1) - 1
      else slen div (tau + 1))"
    using assms ij by (intro klen_new_lookup_nth) auto
  have b: "lut_klen (new_lookup maxk slen maxlen tau) ! nat j =
     (if slen div (tau + 1) > maxk then maxk
      else if j < tau - slen mod (tau + 1) then slen div (tau + 1) - 1
      else slen div (tau + 1))"
    using assms ij by (intro klen_new_lookup_nth) auto
  show "lut_klen (new_lookup maxk slen maxlen tau) ! nat i
         \<le> lut_klen (new_lookup maxk slen maxlen tau) ! nat j"
    unfolding a b using ij by auto
qed

theorem new_lookup_klen_witness:
  "lut_kmers (new_lookup 14 10 10 2) = 3 \<and> lut_klen (new_lookup 14 10 10 2) ! nat 0 = 2 \<and>
   lut_klen (new_lookup 14 10 10 2) ! nat 1 = 3"
proof -
  have h: "(0::int) \<le> 2" "(0::int) \<le> 10" by simp_all
  note T = new_lookup_klen[OF h, of 14 10]
  have A: "lut_kmers (new_lookup 14 10 10 2) = 3" using T[THEN conjunct2, THEN conjunct1] by simp
  note K = T[THEN conjunct2, THEN conjunct2, THEN conjunct2, THEN conjunct2, THEN conjunct1, rule_format]
  have B: "lut_klen (new_lookup 14 10 10 2) ! nat 0 = 2" using K[of 0] by simp
  have C: "lut_klen (new_lookup 14 10 10 2) ! nat 1 = 3" using K[of 1] by simp
  from A B C show ?thesis by (intro conjI)
qed

text \<open>
  The claim as stated fails: for \<open>slen = 10\<close> and \<open>tau = 2\<close> (cap 14) the first k-mer has
  length 2, not \<open>min 14 (10 div 3) = 3\<close>, and it is shorter than the second one.
\<close>

theorem new_lookup_klen_counterexample:
  "lut_klen (new_lookup 14 10 10 2) ! 0 \<noteq> min 14 (10 div (2 + 1)) \<and>
   \<not> lut_klen (new_lookup 14 10 10 2) ! 0 \<ge> lut_klen (new_lookup 14 10 10 2) ! 1"
  by (simp add: new_lookup_def Let_def signed_divide_int_def signed_modulo_int_def
      numeral_2_eq_2 numeral_3_eq_3)

section \<open>The block boundaries of the plan\<close>

lemma plan_bounds_length: "0 < N \<Longrightarrow> length (plan_bounds M N) = nat N + 1"
  by (simp add: plan_bounds_def Let_def)

lemma plan_bounds_nth:
  "0 \<le> M \<Longrightarrow> 0 < N \<Longrightarrow> 0 \<le> i \<Longrightarrow> i \<le> N \<Longrightarrow>
     plan_bounds M N ! nat i = (M div N) * i + min i (M mod N)"
  by (simp add: plan_bounds_def Let_def sdiv_nonneg_eq smod_nonneg_eq)

text \<open>
  Claim C4, as amended. For \<open>M \<ge> 0\<close> unique sequences and \<open>N > 0\<close> tries, the boundaries are
  \<open>bounds[i] = i * (M div N) + min i (M mod N)\<close> for \<open>0 \<le> i \<le> N\<close>; they start at 0, end
  at \<open>M\<close>, and consecutive boundaries are \<open>M div N\<close> or \<open>M div N + 1\<close> apart: the blocks
  are contiguous, cover the \<open>M\<close> sequences and differ in size by at most one.
\<close>

theorem plan_bounds_partition:
  assumes "0 \<le> M" and "0 < N"
  shows "length (plan_bounds M N) = nat N + 1 \<and>
    (\<forall>i. 0 \<le> i \<and> i \<le> N \<longrightarrow>
       plan_bounds M N ! nat i = i * (M div N) + min i (M mod N)) \<and>
    plan_bounds M N ! 0 = 0 \<and> plan_bounds M N ! nat N = M \<and>
    (\<forall>i. 0 \<le> i \<and> i < N \<longrightarrow>
       plan_bounds M N ! nat (i + 1) - plan_bounds M N ! nat i = M div N \<or>
       plan_bounds M N ! nat (i + 1) - plan_bounds M N ! nat i = M div N + 1)"
proof (intro conjI allI impI)
  show "length (plan_bounds M N) = nat N + 1" using assms(2) by (rule plan_bounds_length)
next
  fix i assume "0 \<le> i \<and> i \<le> N"
  then show "plan_bounds M N ! nat i = i * (M div N) + min i (M mod N)"
    using assms by (simp add: plan_bounds_nth mult.commute)
next
  show "plan_bounds M N ! 0 = 0"
    using plan_bounds_nth[OF assms, of 0] assms by simp
next
  have "M mod N < N" using assms(2) by simp
  then have "plan_bounds M N ! nat N = M div N * N + M mod N"
    using plan_bounds_nth[OF assms, of N] assms by simp
  then show "plan_bounds M N ! nat N = M" by simp
next
  fix i assume i: "0 \<le> i \<and> i < N"
  have a: "plan_bounds M N ! nat (i + 1) = (M div N) * (i + 1) + min (i + 1) (M mod N)"
    using i assms by (intro plan_bounds_nth) auto
  have b: "plan_bounds M N ! nat i = (M div N) * i + min i (M mod N)"
    using i assms by (intro plan_bounds_nth) auto
  show "plan_bounds M N ! nat (i + 1) - plan_bounds M N ! nat i = M div N \<or>
       plan_bounds M N ! nat (i + 1) - plan_bounds M N ! nat i = M div N + 1"
    unfolding a b by (auto simp: algebra_simps min_def)
qed

theorem plan_bounds_partition_witness:
  "length (plan_bounds 4 3) = 4 \<and> plan_bounds 4 3 ! nat 3 = 3 * (4 div 3) + min 3 (4 mod 3) \<and>
   plan_bounds 4 3 ! nat 3 = 4"
proof -
  have h: "(0::int) \<le> 4" "(0::int) < 3" by simp_all
  note T = plan_bounds_partition[OF h]
  have A: "length (plan_bounds 4 3) = 4" using T[THEN conjunct1] by simp
  have B: "plan_bounds 4 3 ! nat 3 = 3 * (4 div 3) + min 3 (4 mod 3)"
    by (rule T[THEN conjunct2, THEN conjunct1, rule_format, of 3]) simp
  have C: "plan_bounds 4 3 ! nat 3 = 4"
    by (rule T[THEN conjunct2, THEN conjunct2, THEN conjunct2, THEN conjunct1])
  from A B C show ?thesis by (intro conjI)
qed

text \<open>
  The formula of the claim as stated, \<open>(i * M) div N + min i (M mod N)\<close>, is not what the
  code computes: for \<open>M = 4\<close>, \<open>N = 3\<close> the last boundary is 4, and the formula gives 5.
\<close>

theorem plan_bounds_formula_counterexample:
  "plan_bounds 4 3 ! nat 3 \<noteq> (3 * 4) div 3 + min 3 (4 mod 3)"
  by (simp add: plan_bounds_def Let_def signed_divide_int_def signed_modulo_int_def upto.simps)

section \<open>The schedule of the plan\<close>

lemma mod_small_range: "0 \<le> (x::int) \<Longrightarrow> x < 2 * N \<Longrightarrow> 0 < N \<Longrightarrow> x mod N = (if x < N then x else x - N)"
  by (auto simp: mod_pos_pos_trivial) (smt (verit) minus_mod_self2 mod_pos_pos_trivial)

lemma sched_arith:
  assumes "0 < (N::int)" "odd N" "0 \<le> a" "a < N" "0 \<le> b" "b < N" "a \<noteq> b"
  shows "\<exists>!(i, j). 0 \<le> i \<and> i < N \<and> 0 \<le> j \<and> j < (N + 1) div 2 \<and>
           ((i = a \<and> (i + j) mod N = b) \<or> (i = b \<and> (i + j) mod N = a))"
proof -
  from \<open>odd N\<close> obtain k where N: "N = 2 * k + 1" by (auto elim: oddE)
  have half: "(N + 1) div 2 = k + 1" using N by simp
  have md: "\<And>i j. 0 \<le> i \<Longrightarrow> i < N \<Longrightarrow> 0 \<le> j \<Longrightarrow> j < k + 1 \<Longrightarrow>
      (i + j) mod N = (if i + j < N then i + j else i + j - N)"
    using N assms(1) by (intro mod_small_range) auto
  define p where "p = (if a < b then (if b - a \<le> k then (a, b - a) else (b, N - (b - a)))
                       else (if a - b \<le> k then (b, a - b) else (a, N - (a - b))))"
  show ?thesis
  proof (rule ex1I[of _ p])
    show "case p of (i, j) \<Rightarrow> 0 \<le> i \<and> i < N \<and> 0 \<le> j \<and> j < (N + 1) div 2 \<and>
           ((i = a \<and> (i + j) mod N = b) \<or> (i = b \<and> (i + j) mod N = a))"
    proof -
      have bnd: "0 \<le> a" "a < N" "0 \<le> b" "b < N" "0 \<le> k" "2 * k < N" "N \<le> 2 * k + 1"
        using assms N by auto
      consider "a < b" "b - a \<le> k" | "a < b" "\<not> b - a \<le> k" | "\<not> a < b" "a - b \<le> k"
        | "\<not> a < b" "\<not> a - b \<le> k" by blast
      then show ?thesis
      proof cases
        case 1
        then have "(a + (b - a)) mod N = b" using bnd by (subst md) auto
        with 1 bnd show ?thesis unfolding half p_def by simp
      next
        case 2
        then have "(b + (N - (b - a))) mod N = a" using bnd by (subst md) auto
        with 2 bnd show ?thesis unfolding half p_def by simp
      next
        case 3
        then have "(b + (a - b)) mod N = a" using bnd by (subst md) auto
        with 3 bnd show ?thesis unfolding half p_def by simp
      next
        case 4
        then have "(a + (N - (a - b))) mod N = b" using bnd by (subst md) auto
        with 4 bnd show ?thesis unfolding half p_def by simp
      qed
    qed
  next
    fix q
    assume q: "case q of (i, j) \<Rightarrow> 0 \<le> i \<and> i < N \<and> 0 \<le> j \<and> j < (N + 1) div 2 \<and>
           ((i = a \<and> (i + j) mod N = b) \<or> (i = b \<and> (i + j) mod N = a))"
    obtain i j where qq: "q = (i, j)" by (cases q)
    from q qq have r: "0 \<le> i" "i < N" "0 \<le> j" "j < k + 1" 
      "(i = a \<and> (i + j) mod N = b) \<or> (i = b \<and> (i + j) mod N = a)"
      unfolding half by auto
    from r(5) have "(i = a \<and> (if i + j < N then i + j else i + j - N) = b) \<or> (i = b \<and> (if i + j < N then i + j else i + j - N) = a)"
      using md[OF r(1-4)] by simp
    then show "q = p" unfolding qq p_def using r(1-4) assms N
      by (auto split: if_splits)
  qed
qed

lemma plan_tries_length: "0 < N \<Longrightarrow> length (plan_tries (plan_mt maxk tau h med N M)) = nat N"
  by (simp add: plan_mt_def Let_def)

lemma plan_tries_nth:
  assumes "0 < N" "0 \<le> i" "i < N"
  shows "plan_tries (plan_mt maxk tau h med N M) ! nat i =
     \<lparr> trie_flag = TRIE_FREE, trie_currentjob = 0, trie_njobs = (N + 1) div 2,
       trie_jobs = map (plan_job (plan_bounds M N) tau N i) [0..(N + 1) div 2 - 1],
       trie_lut = new_lookup maxk med h tau \<rparr>"
  using assms by (simp add: plan_mt_def Let_def sdiv_nonneg_eq)

lemma the_job_eq:
  assumes "0 < N" "0 \<le> i" "i < N" "0 \<le> j" "j < (N + 1) div 2"
  shows "the_job (plan_mt maxk tau h med N M) i j =
     \<lparr> job_start = plan_bounds M N ! nat ((i + j) mod N),
       job_end = plan_bounds M N ! nat ((i + j) mod N + 1) - 1,
       job_tau = tau, job_build = (j = 0),
       job_queryid = (i + j) mod N + 1, job_trieid = i + 1 \<rparr>"
  using assms
  by (simp add: the_job_def plan_tries_nth plan_job_def Let_def smod_nonneg_eq)

text \<open>
  Claim C1. In the plan built for an odd number \<open>N\<close> of tries, trie \<open>i\<close> has
  \<open>(N + 1) div 2\<close> jobs; its \<open>j\<close>-th job queries block \<open>(i + j) mod N\<close> (the range from
  \<open>bounds[(i + j) mod N]\<close> to \<open>bounds[(i + j) mod N + 1] - 1\<close>) and is a build job exactly
  when \<open>j = 0\<close>. For two distinct blocks \<open>a\<close> and \<open>b\<close> exactly one job of the plan
  queries block \<open>b\<close> in trie \<open>a\<close> or block \<open>a\<close> in trie \<open>b\<close>. Block \<open>a\<close> is queried in
  trie \<open>a\<close> by exactly one job, the build job of that trie.
\<close>

theorem plan_mt_schedule:
  assumes "0 < N" and "odd N" and "0 \<le> M"
  shows "length (plan_tries (plan_mt maxk tau h med N M)) = nat N \<and>
    (\<forall>i. 0 \<le> i \<and> i < N \<longrightarrow>
       length (trie_jobs (plan_tries (plan_mt maxk tau h med N M) ! nat i)) = nat ((N + 1) div 2)) \<and>
    (\<forall>i j. 0 \<le> i \<and> i < N \<and> 0 \<le> j \<and> j < (N + 1) div 2 \<longrightarrow>
       job_start (the_job (plan_mt maxk tau h med N M) i j) = plan_bounds M N ! nat ((i + j) mod N) \<and>
       job_end (the_job (plan_mt maxk tau h med N M) i j) = plan_bounds M N ! nat ((i + j) mod N + 1) - 1 \<and>
       job_queryid (the_job (plan_mt maxk tau h med N M) i j) = (i + j) mod N + 1 \<and>
       job_trieid (the_job (plan_mt maxk tau h med N M) i j) = i + 1 \<and>
       (job_build (the_job (plan_mt maxk tau h med N M) i j) \<longleftrightarrow> j = 0)) \<and>
    (\<forall>a b. 0 \<le> a \<and> a < N \<and> 0 \<le> b \<and> b < N \<and> a \<noteq> b \<longrightarrow>
       (\<exists>!(i, j). 0 \<le> i \<and> i < N \<and> 0 \<le> j \<and> j < (N + 1) div 2 \<and>
          ((job_trieid (the_job (plan_mt maxk tau h med N M) i j) = a + 1 \<and>
            job_queryid (the_job (plan_mt maxk tau h med N M) i j) = b + 1) \<or>
           (job_trieid (the_job (plan_mt maxk tau h med N M) i j) = b + 1 \<and>
            job_queryid (the_job (plan_mt maxk tau h med N M) i j) = a + 1)))) \<and>
    (\<forall>a. 0 \<le> a \<and> a < N \<longrightarrow>
       (\<exists>!j. 0 \<le> j \<and> j < (N + 1) div 2 \<and>
          job_queryid (the_job (plan_mt maxk tau h med N M) a j) = a + 1) \<and>
       job_build (the_job (plan_mt maxk tau h med N M) a 0) \<and>
       job_queryid (the_job (plan_mt maxk tau h med N M) a 0) = a + 1)"
proof -
  let ?P = "plan_mt maxk tau h med N M"
  have half: "0 < (N + 1) div 2" "(N + 1) div 2 \<le> N" using assms(1,2) by (auto elim!: oddE)
  have c1: "length (plan_tries ?P) = nat N"
    using assms(1) by (rule plan_tries_length)
  have c2: "\<forall>i. 0 \<le> i \<and> i < N \<longrightarrow>
       length (trie_jobs (plan_tries ?P ! nat i)) = nat ((N + 1) div 2)"
    using assms(1) by (simp add: plan_tries_nth)
  have c3: "\<forall>i j. 0 \<le> i \<and> i < N \<and> 0 \<le> j \<and> j < (N + 1) div 2 \<longrightarrow>
       job_start (the_job ?P i j) = plan_bounds M N ! nat ((i + j) mod N) \<and>
       job_end (the_job ?P i j) = plan_bounds M N ! nat ((i + j) mod N + 1) - 1 \<and>
       job_queryid (the_job ?P i j) = (i + j) mod N + 1 \<and>
       job_trieid (the_job ?P i j) = i + 1 \<and>
       (job_build (the_job ?P i j) \<longleftrightarrow> j = 0)"
    using assms(1) by (simp add: the_job_eq)
  have c4: "\<exists>!(i, j). 0 \<le> i \<and> i < N \<and> 0 \<le> j \<and> j < (N + 1) div 2 \<and>
          ((job_trieid (the_job ?P i j) = a + 1 \<and> job_queryid (the_job ?P i j) = b + 1) \<or>
           (job_trieid (the_job ?P i j) = b + 1 \<and> job_queryid (the_job ?P i j) = a + 1))"
    if ab: "0 \<le> a" "a < N" "0 \<le> b" "b < N" "a \<noteq> b" for a b
  proof -
    have eq: "(\<lambda>(i, j). 0 \<le> i \<and> i < N \<and> 0 \<le> j \<and> j < (N + 1) div 2 \<and>
          ((job_trieid (the_job ?P i j) = a + 1 \<and> job_queryid (the_job ?P i j) = b + 1) \<or>
           (job_trieid (the_job ?P i j) = b + 1 \<and> job_queryid (the_job ?P i j) = a + 1)))
       = (\<lambda>(i, j). 0 \<le> i \<and> i < N \<and> 0 \<le> j \<and> j < (N + 1) div 2 \<and>
           ((i = a \<and> (i + j) mod N = b) \<or> (i = b \<and> (i + j) mod N = a)))"
      using assms(1) by (auto simp: fun_eq_iff the_job_eq)
    show ?thesis
      unfolding eq using assms(1,2) ab by (rule sched_arith)
  qed
  have c5: "(\<exists>!j. 0 \<le> j \<and> j < (N + 1) div 2 \<and> job_queryid (the_job ?P a j) = a + 1) \<and>
       job_build (the_job ?P a 0) \<and> job_queryid (the_job ?P a 0) = a + 1"
    if a: "0 \<le> a" "a < N" for a
  proof -
    have z: "job_build (the_job ?P a 0) \<and> job_queryid (the_job ?P a 0) = a + 1"
      using assms(1) a half by (simp add: the_job_eq)
    have u: "j = 0" if "0 \<le> j" "j < (N + 1) div 2" "job_queryid (the_job ?P a j) = a + 1" for j
    proof -
      from that a assms(1) have "(a + j) mod N = a" by (simp add: the_job_eq)
      moreover have "(a + j) mod N = (if a + j < N then a + j else a + j - N)"
        using a that half by (intro mod_small_range) auto
      ultimately show ?thesis using that half by (auto split: if_splits)
    qed
    have "\<exists>!j. 0 \<le> j \<and> j < (N + 1) div 2 \<and> job_queryid (the_job ?P a j) = a + 1"
      by (rule ex1I[of _ 0]) (use z half u in auto)
    with z show ?thesis by simp
  qed
  show ?thesis
  proof (intro conjI)
    show "length (plan_tries ?P) = nat N" by (rule c1)
    show "\<forall>i. 0 \<le> i \<and> i < N \<longrightarrow>
       length (trie_jobs (plan_tries ?P ! nat i)) = nat ((N + 1) div 2)" by (rule c2)
  next
    show "\<forall>i j. 0 \<le> i \<and> i < N \<and> 0 \<le> j \<and> j < (N + 1) div 2 \<longrightarrow>
       job_start (the_job ?P i j) = plan_bounds M N ! nat ((i + j) mod N) \<and>
       job_end (the_job ?P i j) = plan_bounds M N ! nat ((i + j) mod N + 1) - 1 \<and>
       job_queryid (the_job ?P i j) = (i + j) mod N + 1 \<and>
       job_trieid (the_job ?P i j) = i + 1 \<and>
       (job_build (the_job ?P i j) \<longleftrightarrow> j = 0)" by (rule c3)
  next
    show "\<forall>a b. 0 \<le> a \<and> a < N \<and> 0 \<le> b \<and> b < N \<and> a \<noteq> b \<longrightarrow>
       (\<exists>!(i, j). 0 \<le> i \<and> i < N \<and> 0 \<le> j \<and> j < (N + 1) div 2 \<and>
          ((job_trieid (the_job ?P i j) = a + 1 \<and> job_queryid (the_job ?P i j) = b + 1) \<or>
           (job_trieid (the_job ?P i j) = b + 1 \<and> job_queryid (the_job ?P i j) = a + 1)))"
      using c4 by (intro allI impI) (elim conjE)
  next
    show "\<forall>a. 0 \<le> a \<and> a < N \<longrightarrow>
       (\<exists>!j. 0 \<le> j \<and> j < (N + 1) div 2 \<and> job_queryid (the_job ?P a j) = a + 1) \<and>
       job_build (the_job ?P a 0) \<and> job_queryid (the_job ?P a 0) = a + 1"
      using c5 by (intro allI impI) (elim conjE)
  qed
qed

theorem plan_mt_schedule_witness:
  "length (plan_tries (plan_mt 14 1 4 4 3 7)) = 3 \<and>
   job_queryid (the_job (plan_mt 14 1 4 4 3 7) 2 1) = 1 \<and>
   (\<exists>!(i, j). 0 \<le> i \<and> i < 3 \<and> 0 \<le> j \<and> j < (3 + 1) div 2 \<and>
          ((job_trieid (the_job (plan_mt 14 1 4 4 3 7) i j) = 0 + 1 \<and>
            job_queryid (the_job (plan_mt 14 1 4 4 3 7) i j) = 2 + 1) \<or>
           (job_trieid (the_job (plan_mt 14 1 4 4 3 7) i j) = 2 + 1 \<and>
            job_queryid (the_job (plan_mt 14 1 4 4 3 7) i j) = 0 + 1)))"
proof -
  have h: "(0::int) < 3" "odd (3::int)" "(0::int) \<le> 7" by simp_all
  note T = plan_mt_schedule[OF h, of 14 1 4 4]
  have A: "length (plan_tries (plan_mt 14 1 4 4 3 7)) = 3"
    using T[THEN conjunct1] by simp
  have B: "job_queryid (the_job (plan_mt 14 1 4 4 3 7) 2 1) = 1"
    using T[THEN conjunct2, THEN conjunct2, THEN conjunct1, rule_format, of 2 1] by simp
  have C: "\<exists>!(i, j). 0 \<le> i \<and> i < 3 \<and> 0 \<le> j \<and> j < (3 + 1) div 2 \<and>
          ((job_trieid (the_job (plan_mt 14 1 4 4 3 7) i j) = 0 + 1 \<and>
            job_queryid (the_job (plan_mt 14 1 4 4 3 7) i j) = 2 + 1) \<or>
           (job_trieid (the_job (plan_mt 14 1 4 4 3 7) i j) = 2 + 1 \<and>
            job_queryid (the_job (plan_mt 14 1 4 4 3 7) i j) = 0 + 1))"
    by (rule T[THEN conjunct2, THEN conjunct2, THEN conjunct2, THEN conjunct1, rule_format, of 0 2]) simp
  from A B C show ?thesis by (intro conjI)
qed

section \<open>Padding: the maximum and the median length\<close>

lemma maxlen_loop_upper:
  "m \<le> maxlen_loop us m \<and> (\<forall>u\<in>set us. strlen (useq_seq u) \<le> maxlen_loop us m)"
proof (induction us arbitrary: m)
  case Nil
  then show ?case by simp
next
  case (Cons u us)
  let ?m' = "if strlen (useq_seq u) > m then strlen (useq_seq u) else m"
  have "maxlen_loop (u # us) m = maxlen_loop us ?m'" by (simp add: Let_def)
  moreover have "m \<le> ?m'" "strlen (useq_seq u) \<le> ?m'" by auto
  ultimately show ?case using Cons.IH[of ?m'] by (metis order_trans set_ConsD)
qed

lemma maxlen_loop_attained:
  "maxlen_loop us m = m \<or> (\<exists>u\<in>set us. strlen (useq_seq u) = maxlen_loop us m)"
proof (induction us arbitrary: m)
  case Nil
  then show ?case by simp
next
  case (Cons u us)
  let ?m' = "if strlen (useq_seq u) > m then strlen (useq_seq u) else m"
  have "maxlen_loop (u # us) m = maxlen_loop us ?m'" by (simp add: Let_def)
  then show ?case using Cons.IH[of ?m'] by (auto split: if_splits)
qed

lemma maxlen_loop_Max:
  assumes "us \<noteq> []"
  shows "maxlen_loop us 0 = Max (set (map (\<lambda>u. strlen (useq_seq u)) us))"
proof -
  let ?r = "maxlen_loop us 0"
  have up: "\<forall>u\<in>set us. strlen (useq_seq u) \<le> ?r" using maxlen_loop_upper[of 0 us] by simp
  have "\<exists>u\<in>set us. strlen (useq_seq u) = ?r"
  proof (cases "?r = 0")
    case True
    from assms obtain u where u: "u \<in> set us" by (cases us) auto
    with up True have "strlen (useq_seq u) = 0" by (force simp: strlen_def)
    with u True show ?thesis by auto
  next
    case False
    then show ?thesis using maxlen_loop_attained[of us 0] by simp
  qed
  then have "?r \<in> set (map (\<lambda>u. strlen (useq_seq u)) us)" by force
  moreover have "\<And>y. y \<in> set (map (\<lambda>u. strlen (useq_seq u)) us) \<Longrightarrow> y \<le> ?r"
    using up by auto
  ultimately show ?thesis by (intro Max_eqI[symmetric]) auto
qed

lemma pad_loop_snd:
  "snd (pad_loop M (u # us) c) =
     snd (pad_loop M us (c[nat (strlen (useq_seq u)) := c ! nat (strlen (useq_seq u)) + 1]))"
  by (simp add: Let_def split_beta)

lemma pad_loop_length: "length (snd (pad_loop M us c)) = length c"
proof (induction us arbitrary: c)
  case Nil
  then show ?case by simp
next
  case (Cons u us)
  show ?case unfolding pad_loop_snd by (simp add: Cons.IH)
qed

lemma pad_loop_count:
  "l < length c \<Longrightarrow>
   snd (pad_loop M us c) ! l =
     c ! l + int (length (filter (\<lambda>u. nat (strlen (useq_seq u)) = l) us))"
proof (induction us arbitrary: c)
  case Nil
  then show ?case by simp
next
  case (Cons u us)
  let ?c' = "c[nat (strlen (useq_seq u)) := c ! nat (strlen (useq_seq u)) + 1]"
  have "l < length ?c'" using Cons.prems by simp
  from Cons.IH[OF this] Cons.prems show ?case
    unfolding pad_loop_snd by (auto simp: nth_list_update)
qed

lemma median_loop_result:
  assumes "median_loop count half m c = Inr r" and "0 \<le> m"
  shows "m < r \<and> r < int (length count) \<and>
         half \<le> c + (\<Sum>k = m + 1..r. count ! nat k) \<and>
         (\<forall>L. m < L \<and> L < r \<longrightarrow> c + (\<Sum>k = m + 1..L. count ! nat k) < half)"
  using assms
proof (induction count half m c rule: median_loop.induct)
  case (1 count half median ccount)
  let ?m' = "median + 1"
  let ?c' = "ccount + count ! nat ?m'"
  from "1.prems" have inb: "?m' < int (length count)"
    by (subst (asm) median_loop.simps) (auto simp: Let_def split: if_splits)
  have one: "(\<Sum>k = median + 1..median + 1. count ! nat k) = count ! nat (median + 1)" by simp
  show ?case
  proof (cases "?c' < half")
    case True
    with "1.prems" inb have rec: "median_loop count half ?m' ?c' = Inr r"
      by (subst (asm) median_loop.simps) (auto simp: Let_def)
    have ih: "?m' < r \<and> r < int (length count) \<and>
         half \<le> ?c' + (\<Sum>k = ?m' + 1..r. count ! nat k) \<and>
         (\<forall>L. ?m' < L \<and> L < r \<longrightarrow> ?c' + (\<Sum>k = ?m' + 1..L. count ! nat k) < half)"
      using "1.IH"[OF refl _ refl True rec] inb "1.prems"(2) by simp
    have split: "\<And>L. median + 1 \<le> L \<Longrightarrow>
        (\<Sum>k = median + 1..L. count ! nat k) = count ! nat (median + 1) + (\<Sum>k = median + 1 + 1..L. count ! nat k)"
    proof -
      fix L :: int assume "median + 1 \<le> L"
      then have "{median + 1..L} = insert (median + 1) {median + 1 + 1..L}" by auto
      then show "(\<Sum>k = median + 1..L. count ! nat k) =
          count ! nat (median + 1) + (\<Sum>k = median + 1 + 1..L. count ! nat k)"
        by simp
    qed
    show ?thesis
    proof (intro conjI allI impI)
      show "median < r" using ih by simp
      show "r < int (length count)" using ih by simp
      show "half \<le> ccount + (\<Sum>k = median + 1..r. count ! nat k)"
        using ih split[of r] by simp
    next
      fix L assume L: "median < L \<and> L < r"
      show "ccount + (\<Sum>k = median + 1..L. count ! nat k) < half"
      proof (cases "L = median + 1")
        case True
        then show ?thesis using \<open>?c' < half\<close> by simp
      next
        case False
        with L have "?m' < L \<and> L < r" by simp
        with ih have "?c' + (\<Sum>k = ?m' + 1..L. count ! nat k) < half" by blast
        then show ?thesis using split[of L] L by simp
      qed
    qed
  next
    case False
    with "1.prems" inb have "r = ?m'"
      by (subst (asm) median_loop.simps) (auto simp: Let_def)
    then show ?thesis using inb False by auto
  qed
qed


lemma median_loop_returns:
  assumes "0 \<le> m" and "m < L" and "L < int (length count)"
    and "half \<le> c + (\<Sum>k = m + 1..L. count ! nat k)"
  shows "\<exists>r. median_loop count half m c = Inr r"
  using assms
proof (induction count half m c rule: median_loop.induct)
  case (1 count half median ccount)
  let ?m' = "median + 1"
  let ?c' = "ccount + count ! nat ?m'"
  have inb: "0 \<le> ?m' \<and> ?m' < int (length count)" using "1.prems" by simp
  show ?case
  proof (cases "?c' < half")
    case True
    have "L \<noteq> ?m'" using True "1.prems"(4) by auto
    then have lt: "?m' < L" using "1.prems"(2) by simp
    have "{median + 1..L} = insert (median + 1) {median + 1 + 1..L}" using lt by auto
    then have "(\<Sum>k = median + 1..L. count ! nat k) =
          count ! nat (median + 1) + (\<Sum>k = median + 1 + 1..L. count ! nat k)"
      by simp
    then have "half \<le> ?c' + (\<Sum>k = ?m' + 1..L. count ! nat k)"
      using "1.prems"(4) by simp
    from "1.IH"[OF refl _ refl True _ lt "1.prems"(3) this] inb
    obtain r where "median_loop count half ?m' ?c' = Inr r" by auto
    then show ?thesis using inb True
      by (subst median_loop.simps) (simp add: Let_def)
  next
    case False
    then show ?thesis using inb
      by (subst median_loop.simps) (simp add: Let_def)
  qed
qed

lemma lencount_step:
  "0 \<le> L \<Longrightarrow> lencount us 1 (L + 1) =
     lencount us 1 L + int (length (filter (\<lambda>u. strlen (useq_seq u) = L + 1) us))"
  by (induction us) (auto simp: lencount_def)

lemma lencount_zero: "lencount us 1 0 = 0"
  by (induction us) (auto simp: lencount_def)

lemma pad_loop_cumulative:
  assumes "0 \<le> L" and "L \<le> M"
  shows "(\<Sum>k = 1..L. snd (pad_loop M us (replicate (nat (M + 1)) 0)) ! nat k) = lencount us 1 L"
  using assms
proof (induction L rule: int_ge_induct)
  case base
  then show ?case by (simp add: lencount_zero)
next
  case (step L)
  have set: "{1..L + 1} = insert (L + 1) {1..L}" using step.hyps by auto
  have "nat (L + 1) < length (replicate (nat (M + 1)) (0::int))" using step by simp
  then have "snd (pad_loop M us (replicate (nat (M + 1)) 0)) ! nat (L + 1) =
      int (length (filter (\<lambda>u. nat (strlen (useq_seq u)) = nat (L + 1)) us))"
    using step by (subst pad_loop_count) auto
  moreover have "filter (\<lambda>u. nat (strlen (useq_seq u)) = nat (L + 1)) us =
      filter (\<lambda>u. strlen (useq_seq u) = L + 1) us"
    using step.hyps by (intro filter_cong) (auto simp: strlen_def)
  ultimately have "snd (pad_loop M us (replicate (nat (M + 1)) 0)) ! nat (L + 1) =
      int (length (filter (\<lambda>u. strlen (useq_seq u) = L + 1) us))"
    by simp
  then show ?case using step
    by (simp add: set lencount_step)
qed

text \<open>
  Claim C7, as amended. When at least one sequence of the stack is non-empty and the
  non-empty sequences number at least \<open>nitems div 2\<close>, \<^verbatim>\<open>pad_useq\<close> returns the
  maximum sequence length and sets the median to the smallest \<open>L \<ge> 1\<close> such that the
  records with a length between 1 and \<open>L\<close> number at least \<open>nitems div 2\<close>: the loop
  starts at length 1 and never adds the counter of the empty sequences.
\<close>

theorem pad_useq_median:
  assumes "\<exists>u\<in>set useqS. useq_seq u \<noteq> []"
    and "int (length useqS) div 2 \<le> int (length (filter (\<lambda>u. useq_seq u \<noteq> []) useqS))"
  shows "\<exists>median padded.
     pad_useq useqS = Inr (Max (set (map (\<lambda>u. strlen (useq_seq u)) useqS)), median, padded) \<and>
     1 \<le> median \<and>
     int (length useqS) div 2 \<le> lencount useqS 1 median \<and>
     (\<forall>L. 1 \<le> L \<and> L < median \<longrightarrow> lencount useqS 1 L < int (length useqS) div 2)"
proof -
  let ?M = "maxlen_loop useqS 0"
  let ?count = "snd (pad_loop ?M useqS (replicate (nat (?M + 1)) 0))"
  let ?half = "int (length useqS) div 2"
  from assms(1) have ne: "useqS \<noteq> []" by auto
  have M: "?M = Max (set (map (\<lambda>u. strlen (useq_seq u)) useqS))"
    using ne by (rule maxlen_loop_Max)
  have up: "\<forall>u\<in>set useqS. strlen (useq_seq u) \<le> ?M"
    using maxlen_loop_upper[of 0 useqS] by simp
  from assms(1) obtain u where "u \<in> set useqS" "useq_seq u \<noteq> []" by auto
  then have "1 \<le> strlen (useq_seq u)" "strlen (useq_seq u) \<le> ?M"
    using up by (cases "useq_seq u", simp_all add: strlen_def)
  then have Mpos: "1 \<le> ?M" by simp
  have len: "int (length ?count) = ?M + 1" using Mpos by (simp add: pad_loop_length)
  have "filter (\<lambda>u. useq_seq u \<noteq> []) useqS =
      filter (\<lambda>u. 1 \<le> strlen (useq_seq u) \<and> strlen (useq_seq u) \<le> ?M) useqS"
  proof (rule filter_cong[OF refl])
    fix x assume "x \<in> set useqS"
    then have "strlen (useq_seq x) \<le> ?M" using up by blast
    then show "(useq_seq x \<noteq> []) = (1 \<le> strlen (useq_seq x) \<and> strlen (useq_seq x) \<le> ?M)"
      by (cases "useq_seq x") (simp_all add: strlen_def)
  qed
  then have all: "?half \<le> lencount useqS 1 ?M" using assms(2) by (simp add: lencount_def)
  have cum: "\<And>L. 0 \<le> L \<Longrightarrow> L \<le> ?M \<Longrightarrow> (\<Sum>k = 0 + 1..L. ?count ! nat k) = lencount useqS 1 L"
    using pad_loop_cumulative[of _ ?M useqS] by simp
  have "\<exists>r. median_loop ?count ?half 0 0 = Inr r"
  proof (rule median_loop_returns[where L = ?M])
    show "0 < ?M" using Mpos by simp
    show "?M < int (length ?count)" using len by simp
    show "?half \<le> 0 + (\<Sum>k = 0 + 1..?M. ?count ! nat k)" using cum[of ?M] all Mpos by simp
  qed simp
  then obtain r where r: "median_loop ?count ?half 0 0 = Inr r" by blast
  from median_loop_result[OF r] have res: "0 < r" "r < int (length ?count)"
    "?half \<le> 0 + (\<Sum>k = 0 + 1..r. ?count ! nat k)"
    "\<forall>L. 0 < L \<and> L < r \<longrightarrow> 0 + (\<Sum>k = 0 + 1..L. ?count ! nat k) < ?half"
    by simp_all
  have rM: "r \<le> ?M" using res(2) len by simp
  have run: "pad_useq useqS = Inr (?M, r, fst (pad_loop ?M useqS (replicate (nat (?M + 1)) 0)))"
    using r ne by (simp add: pad_useq_def Let_def split_beta sdiv_nonneg_eq)
  show ?thesis
  proof (intro exI conjI allI impI)
    show "pad_useq useqS = Inr (Max (set (map (\<lambda>u. strlen (useq_seq u)) useqS)), r,
        fst (pad_loop ?M useqS (replicate (nat (?M + 1)) 0)))"
      using run M by simp
    show "1 \<le> r" using res(1) by simp
    show "?half \<le> lencount useqS 1 r" using res(3) cum[of r] res(1) rM by simp
  next
    fix L assume L: "1 \<le> L \<and> L < r"
    then have "0 + (\<Sum>k = 0 + 1..L. ?count ! nat k) < ?half" using res(4) by simp
    then show "lencount useqS 1 L < ?half" using cum[of L] L rM by simp
  qed
qed

theorem pad_useq_median_witness:
  "\<exists>median padded.
     pad_useq [\<lparr>useq_count = 1, useq_seq = ''A'', useq_info = None\<rparr>,
               \<lparr>useq_count = 1, useq_seq = ''ACG'', useq_info = None\<rparr>,
               \<lparr>useq_count = 2, useq_seq = ''AC'', useq_info = None\<rparr>]
       = Inr (3, median, padded) \<and>
     1 \<le> median \<and>
     1 \<le> lencount [\<lparr>useq_count = 1, useq_seq = ''A'', useq_info = None\<rparr>,
               \<lparr>useq_count = 1, useq_seq = ''ACG'', useq_info = None\<rparr>,
               \<lparr>useq_count = 2, useq_seq = ''AC'', useq_info = None\<rparr>] 1 median"
proof -
  let ?W = "[\<lparr>useq_count = 1, useq_seq = ''A'', useq_info = None\<rparr>,
               \<lparr>useq_count = 1, useq_seq = ''ACG'', useq_info = None\<rparr>,
               \<lparr>useq_count = 2, useq_seq = ''AC'', useq_info = None\<rparr>]"
  have h1: "\<exists>u\<in>set ?W. useq_seq u \<noteq> []" by simp
  have h2: "int (length ?W) div 2 \<le> int (length (filter (\<lambda>u. useq_seq u \<noteq> []) ?W))" by simp
  have mx: "Max (set (map (\<lambda>u. strlen (useq_seq u)) ?W)) = 3" by (simp add: strlen_def)
  from pad_useq_median[OF h1 h2] show ?thesis unfolding mx by auto
qed

text \<open>
  The claim as stated fails on the stack of an empty sequence and \<^verbatim>\<open>AC\<close>: the median
  is set to 2, although one of the two records (that is \<open>nitems div 2\<close>) has a length of
  at most 1.
\<close>

theorem pad_useq_median_counterexample:
  "pad_useq [\<lparr>useq_count = 1, useq_seq = '''', useq_info = None\<rparr>,
             \<lparr>useq_count = 1, useq_seq = ''AC'', useq_info = None\<rparr>]
     = Inr (2, 2, [\<lparr>useq_count = 1, useq_seq = ''  '', useq_info = None\<rparr>,
                   \<lparr>useq_count = 1, useq_seq = ''AC'', useq_info = None\<rparr>]) \<and>
   int (length [\<lparr>useq_count = 1, useq_seq = '''', useq_info = None\<rparr>,
                \<lparr>useq_count = 1, useq_seq = ''AC'', useq_info = None\<rparr>]) div 2
     \<le> int (length (filter (\<lambda>u. strlen (useq_seq u) \<le> 1)
               [\<lparr>useq_count = 1, useq_seq = '''', useq_info = None\<rparr>,
                \<lparr>useq_count = 1, useq_seq = ''AC'', useq_info = None\<rparr>]))"
  by (simp add: pad_useq_def Let_def strlen_def signed_divide_int_def median_loop.simps
      numeral_2_eq_2 numeral_3_eq_3)

section \<open>The lookup filter: insertion\<close>

lemma bit_test_eq: "bit (drop_bit n (w :: 8 word) AND 1) 0 = bit w n"
  by (simp add: bit_and_iff bit_drop_bit_eq bit_1_iff)

lemma bit_set_eq: "n < 8 \<Longrightarrow> bit ((w :: 8 word) OR push_bit n 1) m = (bit w m \<or> m = n)"
  by (auto simp: bit_or_iff bit_exp_iff possible_bit_word)

lemma bitmap_set_length: "bitmap_set bm seqid = Inr bm' \<Longrightarrow> length bm' = length bm"
  by (auto simp: bitmap_set_def split: if_splits)

lemma bitmap_set_get:
  assumes "bitmap_set bm seqid = Inr bm'" and "0 \<le> seqid" and "0 \<le> seqid'"
  shows "bitmap_get bm' seqid' = (if seqid' = seqid then Inr True else bitmap_get bm seqid')"
proof -
  have d: "seqid sdiv 8 = seqid div 8" "seqid smod 8 = seqid mod 8"
    "seqid' sdiv 8 = seqid' div 8" "seqid' smod 8 = seqid' mod 8"
    using assms(2,3) by (simp_all add: sdiv_nonneg_eq smod_nonneg_eq)
  from assms(1) have inb: "0 \<le> seqid div 8" "seqid div 8 < int (length bm)"
    and bm': "bm' = bm[nat (seqid div 8) := bm ! nat (seqid div 8) OR push_bit (nat (seqid mod 8)) 1]"
    by (auto simp: bitmap_set_def d split: if_splits)
  have m8: "nat (seqid mod 8) < 8" "nat (seqid' mod 8) < 8" by simp_all
  have len: "length bm' = length bm" using assms(1) by (rule bitmap_set_length)
  have nn: "0 \<le> seqid' div 8" using assms(3) by (simp add: pos_imp_zdiv_nonneg_iff)
  show ?thesis
  proof (cases "seqid' div 8 = seqid div 8")
    case True
    have e1: "seqid' = 8 * (seqid' div 8) + seqid' mod 8" by simp
    have e2: "seqid = 8 * (seqid div 8) + seqid mod 8" by simp
    have "(seqid' = seqid) = (seqid' mod 8 = seqid mod 8)"
      using True e1 e2 by auto
    moreover have "(nat (seqid' mod 8) = nat (seqid mod 8)) = (seqid' mod 8 = seqid mod 8)"
      by (simp add: nat_eq_iff)
    ultimately have k: "(seqid' = seqid) = (nat (seqid' mod 8) = nat (seqid mod 8))" by simp
    have byte: "bm' ! nat (seqid' div 8) =
        bm ! nat (seqid div 8) OR push_bit (nat (seqid mod 8)) 1"
      using True inb by (simp add: bm')
    have "bitmap_get bm' seqid' = Inr (bit (bm' ! nat (seqid' div 8)) (nat (seqid' mod 8)))"
      using True inb len by (simp add: bitmap_get_def d bit_test_eq)
    also have "\<dots> = Inr (bit (bm ! nat (seqid div 8)) (nat (seqid' mod 8)) \<or> seqid' = seqid)"
      unfolding byte k using m8(1) by (simp only: bit_set_eq)
    also have "\<dots> = (if seqid' = seqid then Inr True else bitmap_get bm seqid')"
      using True inb by (simp add: bitmap_get_def d bit_test_eq)
    finally show ?thesis .
  next
    case False
    then have ne: "seqid' \<noteq> seqid" by auto
    have "nat (seqid' div 8) \<noteq> nat (seqid div 8)"
      using False inb(1) nn by (simp add: nat_eq_iff)
    then have "bm' ! nat (seqid' div 8) = bm ! nat (seqid' div 8)"
      by (simp add: bm')
    then show ?thesis using ne len
      by (simp add: bitmap_get_def d)
  qed
qed

lemma seq2id_loop_Suc:
  "seq2id_loop s p (Suc n) acc =
     (case cstr_at s p of
        Inl e \<Rightarrow> Inl e
      | Inr c \<Rightarrow>
          (case base_code c of
             Some d \<Rightarrow>
               seq2id_loop s (p + 1) n (shift2 n (if d = 0 then acc else int32 (acc + d)))
           | None \<Rightarrow> Inr (if c = CHR 0x00 then - 2 else - 1)))"
  by (simp add: base_code_def split: sum.split)

declare seq2id_loop.simps(2) [simp del]

lemma base_code_range: "base_code c = Some d \<Longrightarrow> 0 \<le> d \<and> d \<le> 3"
  by (auto simp: base_code_def split: if_splits)

lemma base_code_valid: "(base_code c \<noteq> None) = valid_base c"
  by (auto simp: base_code_def valid_base_def)

lemma base_code_NUL: "base_code (CHR 0x00) = None"
  by (simp add: base_code_def)

text \<open>
  The identifier stays inside the 32-bit range as long as the letters still to come leave
  room: with \<open>n + 1\<close> letters to read and the accumulator \<open>acc\<close>, the largest result is
  below \<open>(acc + 4) * 4 ^ n\<close>. From \<open>acc = 0\<close> this holds for k-mers of at most 15 letters;
  16 letters reach the values \<open>-1\<close> and \<open>-2\<close> that \<^verbatim>\<open>seq2id\<close> returns for an invalid
  character and for the terminator.
\<close>

lemma seq2id_overflow:
  "seq2id ''TTTTTTTTTTTTTTTT'' 0 16 = Inr (- 1)"
  "seq2id ''TTTTTTTTTTTTTTTG'' 0 16 = Inr (- 2)"
  "seq2id ''TTTTTTTTTTTTTTT'' 0 15 = Inr 1073741823"
  by code_simp+

lemma seqid_step:
  assumes "0 \<le> acc" and "acc * 4 ^ n + 4 * 4 ^ n \<le> 2 ^ 31" and "0 \<le> d" and "d \<le> 3"
  shows "shift2 n (if d = 0 then acc else int32 (acc + d)) =
           (if 0 < n then (acc + d) * 4 else acc + d)"
    and "0 \<le> shift2 n (if d = 0 then acc else int32 (acc + d))"
    and "shift2 n (if d = 0 then acc else int32 (acc + d)) * 4 ^ (n - 1) + 4 ^ n \<le> 2 ^ 31"
proof -
  let ?v = "shift2 n (if d = 0 then acc else int32 (acc + d))"
  have room: "(acc + 4) * 4 ^ n \<le> 2 ^ 31" using assms(2) by (simp add: algebra_simps)
  have "(acc + 4) * 1 \<le> (acc + 4) * 4 ^ n" using assms(1) by (intro mult_left_mono) simp_all
  then have a4: "acc + 4 \<le> 2 ^ 31" using room by simp
  have "int32 (acc + d) = acc + d" using assms(1,3,4) a4 by (intro int32_id) simp_all
  then have a: "(if d = 0 then acc else int32 (acc + d)) = acc + d" by simp
  have v: "?v = (if 0 < n then (acc + d) * 4 else acc + d)"
  proof (cases n)
    case 0
    then show ?thesis unfolding a by (simp add: shift2_def)
  next
    case (Suc m)
    have "(acc + 4) * 4 ^ 1 \<le> (acc + 4) * 4 ^ n"
      using assms(1) Suc by (intro mult_left_mono power_increasing) simp_all
    then have "(acc + d) * 4 < 2 ^ 31" using room assms(4) by simp
    then have "int32 ((acc + d) * 4) = (acc + d) * 4"
      using assms(1,3) by (intro int32_id) simp_all
    then show ?thesis unfolding a using Suc by (simp add: shift2_def)
  qed
  show "?v = (if 0 < n then (acc + d) * 4 else acc + d)" by (rule v)
  show "0 \<le> ?v" unfolding v using assms(1,3) by simp
  show "?v * 4 ^ (n - 1) + 4 ^ n \<le> 2 ^ 31"
  proof (cases n)
    case 0
    then show ?thesis unfolding v using a4 assms(4) by simp
  next
    case (Suc m)
    have "(acc + d) * 4 * 4 ^ m + 4 ^ Suc m = (acc + d + 1) * 4 ^ Suc m"
      by (simp add: algebra_simps)
    also have "\<dots> \<le> (acc + 4) * 4 ^ Suc m" using assms(4) by (intro mult_right_mono) simp_all
    finally show ?thesis unfolding v using room Suc by simp
  qed
qed

lemma seqid_room_start: "k \<le> 15 \<Longrightarrow> (0::int) * 4 ^ (nat k - 1) + 4 ^ nat k \<le> 2 ^ 31"
proof -
  assume "k \<le> 15"
  then have "(4::int) ^ nat k \<le> 4 ^ 15" by (intro power_increasing) simp_all
  then show ?thesis by simp
qed

lemma seq2id_loop_range:
  "seq2id_loop s p n acc = Inr r \<Longrightarrow> 0 \<le> acc \<Longrightarrow> acc * 4 ^ (n - 1) + 4 ^ n \<le> 2 ^ 31 \<Longrightarrow>
     0 \<le> r \<or> r = - 1 \<or> r = - 2"
proof (induction n arbitrary: p acc)
  case 0
  then show ?case by simp
next
  case (Suc n)
  from Suc.prems(1) obtain c where c: "cstr_at s p = Inr c"
    by (cases "cstr_at s p") (simp_all add: seq2id_loop_Suc)
  have room: "acc * 4 ^ n + 4 * 4 ^ n \<le> 2 ^ 31" using Suc.prems(3) by simp
  show ?case
  proof (cases "base_code c")
    case None
    with Suc.prems(1) c show ?thesis by (simp add: seq2id_loop_Suc split: if_splits)
  next
    case (Some d)
    let ?v = "shift2 n (if d = 0 then acc else int32 (acc + d))"
    from Some Suc.prems(1) c have "seq2id_loop s (p + 1) n ?v = Inr r"
      by (simp add: seq2id_loop_Suc)
    moreover have d: "0 \<le> d" "d \<le> 3" using base_code_range[OF Some] by simp_all
    note seqid_step(2,3)[OF Suc.prems(2) room d]
    ultimately show ?thesis by (rule Suc.IH)
  qed
qed

lemma seq2id_range: "seq2id s off k = Inr r \<Longrightarrow> k \<le> 15 \<Longrightarrow> 0 \<le> r \<or> r = - 1 \<or> r = - 2"
  unfolding seq2id_def by (erule seq2id_loop_range) (simp, rule seqid_room_start)

lemma seq2id_loop_bound:
  "seq2id_loop s p (Suc n) acc = Inr r \<Longrightarrow> 0 \<le> acc \<Longrightarrow> acc * 4 ^ n + 4 * 4 ^ n \<le> 2 ^ 31 \<Longrightarrow>
     r < (acc + 4) * 4 ^ n"
proof (induction n arbitrary: p acc)
  case 0
  from "0.prems"(1) obtain c where c: "cstr_at s p = Inr c"
    by (cases "cstr_at s p") (simp_all add: seq2id_loop_Suc)
  show ?case
  proof (cases "base_code c")
    case None
    with "0.prems" c show ?thesis by (simp add: seq2id_loop_Suc split: if_splits)
  next
    case (Some d)
    have d: "0 \<le> d" "d \<le> 3" using base_code_range[OF Some] by simp_all
    from seqid_step(1)[OF "0.prems"(2,3) d] Some "0.prems"(1) c d show ?thesis
      by (simp add: seq2id_loop_Suc)
  qed
next
  case (Suc n)
  from Suc.prems(1) obtain c where c: "cstr_at s p = Inr c"
    by (cases "cstr_at s p") (simp_all add: seq2id_loop_Suc[of s p "Suc n"])
  show ?case
  proof (cases "base_code c")
    case None
    with Suc.prems c have "r < 0" by (simp add: seq2id_loop_Suc[of s p "Suc n"] split: if_splits)
    moreover have "0 \<le> (acc + 4) * 4 ^ Suc n" using Suc.prems(2) by simp
    ultimately show ?thesis by linarith
  next
    case (Some d)
    have d: "0 \<le> d" "d \<le> 3" using base_code_range[OF Some] by simp_all
    note st = seqid_step[OF Suc.prems(2,3) d]
    have v: "shift2 (Suc n) (if d = 0 then acc else int32 (acc + d)) = (acc + d) * 4"
      using st(1) by simp
    from Some Suc.prems(1) c have rec: "seq2id_loop s (p + 1) (Suc n) ((acc + d) * 4) = Inr r"
      unfolding v[symmetric] by (simp add: seq2id_loop_Suc[of s p "Suc n"])
    have nn: "0 \<le> (acc + d) * 4" using st(2) unfolding v .
    have rm: "(acc + d) * 4 * 4 ^ n + 4 * 4 ^ n \<le> 2 ^ 31" using st(3) unfolding v by simp
    from Suc.IH[OF rec nn rm] have "r < ((acc + d) * 4 + 4) * 4 ^ n" .
    also have "\<dots> \<le> ((acc + 3) * 4 + 4) * 4 ^ n"
      using d by (intro mult_right_mono) auto
    also have "\<dots> = (acc + 4) * 4 ^ Suc n" by (simp add: algebra_simps)
    finally show ?thesis .
  qed
qed

lemma cstr_at_in: "0 \<le> p \<Longrightarrow> p < int (length s) \<Longrightarrow> cstr_at s p = Inr (s ! nat p)"
  by (simp add: cstr_at_def)

lemma cstring_nth: "cstring s \<Longrightarrow> 0 \<le> p \<Longrightarrow> p < int (length s) \<Longrightarrow> s ! nat p \<noteq> CHR 0x00"
  by (metis cstring_def nat_less_iff nth_mem)

lemma seq2id_loop_valid:
  assumes "0 \<le> p" and "p + int n \<le> int (length s)"
    and "\<forall>k<n. valid_base (s ! (nat p + k))"
    and "0 \<le> acc" and "acc * 4 ^ (n - 1) + 4 ^ n \<le> 2 ^ 31"
  shows "\<exists>r. seq2id_loop s p n acc = Inr r \<and> 0 \<le> r"
  using assms
proof (induction n arbitrary: p acc)
  case 0
  then show ?case by simp
next
  case (Suc n)
  have c: "cstr_at s p = Inr (s ! nat p)" using Suc.prems(1,2) by (intro cstr_at_in) auto
  from Suc.prems(3) have "valid_base (s ! (nat p + 0))" by blast
  then obtain d where d: "base_code (s ! nat p) = Some d"
    using base_code_valid[of "s ! nat p"] by auto
  have dr: "0 \<le> d" "d \<le> 3" using base_code_range[OF d] by simp_all
  have room: "acc * 4 ^ n + 4 * 4 ^ n \<le> 2 ^ 31" using Suc.prems(5) by simp
  let ?v = "shift2 n (if d = 0 then acc else int32 (acc + d))"
  have nx: "nat (p + 1) = Suc (nat p)" using Suc.prems(1) by simp
  have "\<forall>k<n. valid_base (s ! (nat (p + 1) + k))"
    using Suc.prems(3) unfolding nx by (metis Suc_less_eq add_Suc_shift)
  then have "\<exists>r. seq2id_loop s (p + 1) n ?v = Inr r \<and> 0 \<le> r"
    using Suc.prems(1,2) seqid_step(2,3)[OF Suc.prems(4) room dr] by (intro Suc.IH) auto
  then show ?case by (simp add: seq2id_loop_Suc c d)
qed

lemma seq2id_loop_invalid:
  assumes "0 \<le> p" and "p + int n \<le> int (length s)" and "cstring s"
    and "\<exists>k<n. \<not> valid_base (s ! (nat p + k))"
  shows "seq2id_loop s p n acc = Inr (- 1)"
  using assms
proof (induction n arbitrary: p acc)
  case 0
  then show ?case by simp
next
  case (Suc n)
  have c: "cstr_at s p = Inr (s ! nat p)" using Suc.prems(1,2) by (intro cstr_at_in) auto
  have nz: "s ! nat p \<noteq> CHR 0x00" using Suc.prems(1,2,3) by (intro cstring_nth) auto
  show ?case
  proof (cases "base_code (s ! nat p)")
    case None
    then show ?thesis using nz by (simp add: seq2id_loop_Suc c)
  next
    case (Some d)
    then have v: "valid_base (s ! nat p)" using base_code_valid[of "s ! nat p"] by simp
    from Suc.prems(4) obtain k where k: "k < Suc n" "\<not> valid_base (s ! (nat p + k))" by blast
    with v have "k \<noteq> 0" by (cases k) auto
    then obtain k' where k': "k = Suc k'" by (cases k) auto
    have nx: "nat (p + 1) = Suc (nat p)" using Suc.prems(1) by simp
    have "\<exists>k<n. \<not> valid_base (s ! (nat (p + 1) + k))"
      using k unfolding k' nx by (intro exI[of _ k']) simp
    then have "\<And>a. seq2id_loop s (p + 1) n a = Inr (- 1)"
      using Suc.prems(1,2,3) by (intro Suc.IH) auto
    then show ?thesis by (simp add: seq2id_loop_Suc c Some)
  qed
qed

lemma seq2id_loop_terminator:
  assumes "seq2id_loop s p n acc = Inr (- 2)" and "0 \<le> acc"
    and "acc * 4 ^ (n - 1) + 4 ^ n \<le> 2 ^ 31" and "cstring s"
  shows "0 \<le> p \<and> p \<le> int (length s) \<and> int (length s) < p + int n"
  using assms
proof (induction n arbitrary: p acc)
  case 0
  then show ?case by simp
next
  case (Suc n)
  from Suc.prems(1) obtain c where c: "cstr_at s p = Inr c"
    by (cases "cstr_at s p") (simp_all add: seq2id_loop_Suc)
  then have pr: "0 \<le> p" "p \<le> int (length s)" by (auto dest: cstr_at_InrD)
  have room: "acc * 4 ^ n + 4 * 4 ^ n \<le> 2 ^ 31" using Suc.prems(3) by simp
  show ?case
  proof (cases "base_code c")
    case None
    with Suc.prems(1) c have "c = CHR 0x00" by (simp add: seq2id_loop_Suc split: if_splits)
    with c Suc.prems(4) have "p = int (length s)"
      using cstring_nth[of s p] by (auto simp: cstr_at_def split: if_splits)
    then show ?thesis by simp
  next
    case (Some d)
    let ?v = "shift2 n (if d = 0 then acc else int32 (acc + d))"
    have d: "0 \<le> d" "d \<le> 3" using base_code_range[OF Some] by simp_all
    from Some Suc.prems(1) c have rec: "seq2id_loop s (p + 1) n ?v = Inr (- 2)"
      by (simp add: seq2id_loop_Suc)
    note st = seqid_step(2,3)[OF Suc.prems(2) room d]
    from Suc.IH[OF rec st Suc.prems(4)] pr show ?thesis by simp
  qed
qed


lemma lut_insert_loop_Suc:
  "lut_insert_loop L q (Suc i) offset =
     (case seq2id q (offset - lut_klen L ! i) (lut_klen L ! i) of
        Inl e \<Rightarrow> Inl e
      | Inr seqid \<Rightarrow>
          if seqid \<ge> 0 then
            (case bitmap_set (lut_bits L ! i) seqid of
               Inl e \<Rightarrow> Inl e
             | Inr bm \<Rightarrow> lut_insert_loop (L\<lparr>lut_bits := (lut_bits L)[i := bm]\<rparr>) q i
                          (offset - lut_klen L ! i))
          else if seqid = - 2 then Inr (1, L)
          else lut_insert_loop L q i (offset - lut_klen L ! i))"
  by (simp add: Let_def)

declare lut_insert_loop.simps(2) [simp del]

lemma sum_drop_take_Suc:
  assumes "n < length kl" and "i \<le> n"
  shows "sum_list (drop i (take (Suc n) kl)) = sum_list (drop i (take n kl)) + (kl ! n :: int)"
proof -
  have "take (Suc n) kl = take n kl @ [kl ! n]" using assms(1) by (rule take_Suc_conv_app_nth)
  then show ?thesis using assms by simp
qed

lemma lut_insert_loop_outcome:
  assumes "lut_insert_loop L q n offset = Inr (r, L')"
    and "n \<le> length (lut_klen L)" and "n \<le> length (lut_bits L)"
  shows "lut_klen L' = lut_klen L \<and> lut_slen L' = lut_slen L \<and> lut_kmers L' = lut_kmers L \<and>
     length (lut_bits L') = length (lut_bits L) \<and>
     (\<forall>i. n \<le> i \<longrightarrow> lut_bits L' ! i = lut_bits L ! i) \<and>
     (\<exists>j\<le>n. (r = 0 \<longleftrightarrow> j = 0) \<and>
        (0 < j \<longrightarrow> r = 1 \<and>
           seq2id q (offset - sum_list (drop (j - 1) (take n (lut_klen L)))) (lut_klen L ! (j - 1))
             = Inr (- 2)) \<and>
        (\<forall>i<j. lut_bits L' ! i = lut_bits L ! i) \<and>
        (\<forall>i. j \<le> i \<and> i < n \<longrightarrow>
           (\<exists>seqid. seq2id q (offset - sum_list (drop i (take n (lut_klen L)))) (lut_klen L ! i)
                       = Inr seqid \<and> seqid \<noteq> - 2 \<and>
              (if 0 \<le> seqid then bitmap_set (lut_bits L ! i) seqid = Inr (lut_bits L' ! i)
               else lut_bits L' ! i = lut_bits L ! i))))"
  using assms
proof (induction n arbitrary: L offset)
  case 0
  then show ?case by auto
next
  case (Suc n)
  let ?kl = "lut_klen L"
  let ?off = "offset - ?kl ! n"
  have nlt: "n < length ?kl" "n < length (lut_bits L)" using Suc.prems(2,3) by simp_all
  have offn: "offset - sum_list (drop n (take (Suc n) ?kl)) = ?off"
    using sum_drop_take_Suc[OF nlt(1), of n] by simp
  have offi: "\<And>i. i \<le> n \<Longrightarrow>
      offset - sum_list (drop i (take (Suc n) ?kl)) = ?off - sum_list (drop i (take n ?kl))"
    using sum_drop_take_Suc[OF nlt(1)] by simp
  from Suc.prems(1) obtain seqid where sid: "seq2id q ?off (?kl ! n) = Inr seqid"
    by (cases "seq2id q ?off (?kl ! n)") (simp_all add: lut_insert_loop_Suc)
  consider (hit) "0 \<le> seqid" | (stop) "seqid = - 2" | (skip) "seqid < 0 \<and> seqid \<noteq> - 2"
    by linarith
  then show ?case
  proof cases
    case stop
    with Suc.prems(1) sid have res: "r = 1" "L' = L" by (simp_all add: lut_insert_loop_Suc)
    show ?thesis unfolding res
      by (intro conjI refl allI impI exI[of _ "Suc n"]) (use sid stop offn in auto)
  next
    case skip
    with Suc.prems(1) sid have rec: "lut_insert_loop L q n ?off = Inr (r, L')"
      by (simp add: lut_insert_loop_Suc)
    from Suc.IH[OF rec] nlt
    have fr: "lut_klen L' = ?kl" "lut_slen L' = lut_slen L" "lut_kmers L' = lut_kmers L"
      "length (lut_bits L') = length (lut_bits L)"
      "\<forall>i. n \<le> i \<longrightarrow> lut_bits L' ! i = lut_bits L ! i"
      and ex: "\<exists>j\<le>n. (r = 0 \<longleftrightarrow> j = 0) \<and>
        (0 < j \<longrightarrow> r = 1 \<and>
           seq2id q (?off - sum_list (drop (j - 1) (take n ?kl))) (?kl ! (j - 1)) = Inr (- 2)) \<and>
        (\<forall>i<j. lut_bits L' ! i = lut_bits L ! i) \<and>
        (\<forall>i. j \<le> i \<and> i < n \<longrightarrow>
           (\<exists>seqid. seq2id q (?off - sum_list (drop i (take n ?kl))) (?kl ! i) = Inr seqid \<and>
              seqid \<noteq> - 2 \<and>
              (if 0 \<le> seqid then bitmap_set (lut_bits L ! i) seqid = Inr (lut_bits L' ! i)
               else lut_bits L' ! i = lut_bits L ! i)))"
      by simp_all
    from ex obtain j where j: "j \<le> n" "(r = 0 \<longleftrightarrow> j = 0)"
      "0 < j \<longrightarrow> r = 1 \<and>
           seq2id q (?off - sum_list (drop (j - 1) (take n ?kl))) (?kl ! (j - 1)) = Inr (- 2)"
      "\<forall>i<j. lut_bits L' ! i = lut_bits L ! i"
      "\<forall>i. j \<le> i \<and> i < n \<longrightarrow>
           (\<exists>seqid. seq2id q (?off - sum_list (drop i (take n ?kl))) (?kl ! i) = Inr seqid \<and>
              seqid \<noteq> - 2 \<and>
              (if 0 \<le> seqid then bitmap_set (lut_bits L ! i) seqid = Inr (lut_bits L' ! i)
               else lut_bits L' ! i = lut_bits L ! i))"
      by blast
    have last: "\<exists>seqid. seq2id q (offset - sum_list (drop n (take (Suc n) ?kl))) (?kl ! n) = Inr seqid \<and>
              seqid \<noteq> - 2 \<and>
              (if 0 \<le> seqid then bitmap_set (lut_bits L ! n) seqid = Inr (lut_bits L' ! n)
               else lut_bits L' ! n = lut_bits L ! n)"
      unfolding offn using sid skip fr(5) by auto
    show ?thesis
    proof (intro conjI exI[of _ j])
      show "\<forall>i. Suc n \<le> i \<longrightarrow> lut_bits L' ! i = lut_bits L ! i" using fr(5) by simp
      show "j \<le> Suc n" using j(1) by simp
      show "0 < j \<longrightarrow> r = 1 \<and>
           seq2id q (offset - sum_list (drop (j - 1) (take (Suc n) ?kl))) (?kl ! (j - 1)) = Inr (- 2)"
      proof (intro impI)
        assume "0 < j"
        then have a: "r = 1" and b: "seq2id q (?off - sum_list (drop (j - 1) (take n ?kl)))
            (?kl ! (j - 1)) = Inr (- 2)"
          using j(3) by auto
        have e: "offset - sum_list (drop (j - 1) (take (Suc n) ?kl)) =
            ?off - sum_list (drop (j - 1) (take n ?kl))"
          by (rule offi) (use j(1) in simp)
        show "r = 1 \<and>
           seq2id q (offset - sum_list (drop (j - 1) (take (Suc n) ?kl))) (?kl ! (j - 1)) = Inr (- 2)"
          unfolding e using a b by (intro conjI)
      qed
      show "\<forall>i. j \<le> i \<and> i < Suc n \<longrightarrow>
           (\<exists>seqid. seq2id q (offset - sum_list (drop i (take (Suc n) ?kl))) (?kl ! i) = Inr seqid \<and>
              seqid \<noteq> - 2 \<and>
              (if 0 \<le> seqid then bitmap_set (lut_bits L ! i) seqid = Inr (lut_bits L' ! i)
               else lut_bits L' ! i = lut_bits L ! i))"
      proof (intro allI impI)
        fix i assume i: "j \<le> i \<and> i < Suc n"
        show "\<exists>seqid. seq2id q (offset - sum_list (drop i (take (Suc n) ?kl))) (?kl ! i) = Inr seqid \<and>
              seqid \<noteq> - 2 \<and>
              (if 0 \<le> seqid then bitmap_set (lut_bits L ! i) seqid = Inr (lut_bits L' ! i)
               else lut_bits L' ! i = lut_bits L ! i)"
        proof (cases "i = n")
          case True
          show ?thesis unfolding True by (rule last)
        next
          case False
          with i have ji: "j \<le> i \<and> i < n" by simp
          have e: "offset - sum_list (drop i (take (Suc n) ?kl)) =
              ?off - sum_list (drop i (take n ?kl))"
            by (rule offi) (use ji in simp)
          show ?thesis unfolding e using j(5) ji by blast
        qed
      qed
    qed (use fr j in simp_all)
  next
    case hit
    with Suc.prems(1) sid obtain bm where bm: "bitmap_set (lut_bits L ! n) seqid = Inr bm"
      by (cases "bitmap_set (lut_bits L ! n) seqid") (simp_all add: lut_insert_loop_Suc)
    let ?L1 = "L\<lparr>lut_bits := (lut_bits L)[n := bm]\<rparr>"
    from Suc.prems(1) sid hit bm have rec: "lut_insert_loop ?L1 q n ?off = Inr (r, L')"
      by (simp add: lut_insert_loop_Suc)
    have b1: "\<And>i. i \<noteq> n \<Longrightarrow> lut_bits ?L1 ! i = lut_bits L ! i" by simp
    have bn: "lut_bits ?L1 ! n = bm" using nlt by simp
    from Suc.IH[OF rec] nlt
    have fr: "lut_klen L' = ?kl" "lut_slen L' = lut_slen L" "lut_kmers L' = lut_kmers L"
      "length (lut_bits L') = length (lut_bits L)"
      "\<forall>i. n \<le> i \<longrightarrow> lut_bits L' ! i = lut_bits ?L1 ! i"
      and ex: "\<exists>j\<le>n. (r = 0 \<longleftrightarrow> j = 0) \<and>
        (0 < j \<longrightarrow> r = 1 \<and>
           seq2id q (?off - sum_list (drop (j - 1) (take n ?kl))) (?kl ! (j - 1)) = Inr (- 2)) \<and>
        (\<forall>i<j. lut_bits L' ! i = lut_bits ?L1 ! i) \<and>
        (\<forall>i. j \<le> i \<and> i < n \<longrightarrow>
           (\<exists>seqid. seq2id q (?off - sum_list (drop i (take n ?kl))) (?kl ! i) = Inr seqid \<and>
              seqid \<noteq> - 2 \<and>
              (if 0 \<le> seqid then bitmap_set (lut_bits ?L1 ! i) seqid = Inr (lut_bits L' ! i)
               else lut_bits L' ! i = lut_bits ?L1 ! i)))"
      by simp_all
    from ex obtain j where j: "j \<le> n" "(r = 0 \<longleftrightarrow> j = 0)"
      "0 < j \<longrightarrow> r = 1 \<and>
           seq2id q (?off - sum_list (drop (j - 1) (take n ?kl))) (?kl ! (j - 1)) = Inr (- 2)"
      "\<forall>i<j. lut_bits L' ! i = lut_bits ?L1 ! i"
      "\<forall>i. j \<le> i \<and> i < n \<longrightarrow>
           (\<exists>seqid. seq2id q (?off - sum_list (drop i (take n ?kl))) (?kl ! i) = Inr seqid \<and>
              seqid \<noteq> - 2 \<and>
              (if 0 \<le> seqid then bitmap_set (lut_bits ?L1 ! i) seqid = Inr (lut_bits L' ! i)
               else lut_bits L' ! i = lut_bits ?L1 ! i))"
      by blast
    have "lut_bits L' ! n = bm" using fr(5) bn by simp
    then have last: "\<exists>seqid. seq2id q (offset - sum_list (drop n (take (Suc n) ?kl))) (?kl ! n) = Inr seqid \<and>
              seqid \<noteq> - 2 \<and>
              (if 0 \<le> seqid then bitmap_set (lut_bits L ! n) seqid = Inr (lut_bits L' ! n)
               else lut_bits L' ! n = lut_bits L ! n)"
      unfolding offn using sid hit bm by auto
    show ?thesis
    proof (intro conjI exI[of _ j])
      show "\<forall>i. Suc n \<le> i \<longrightarrow> lut_bits L' ! i = lut_bits L ! i"
        using fr(5) b1 by (metis Suc_leD Suc_n_not_le_n)
      show "j \<le> Suc n" using j(1) by simp
      show "0 < j \<longrightarrow> r = 1 \<and>
           seq2id q (offset - sum_list (drop (j - 1) (take (Suc n) ?kl))) (?kl ! (j - 1)) = Inr (- 2)"
      proof (intro impI)
        assume "0 < j"
        then have a: "r = 1" and b: "seq2id q (?off - sum_list (drop (j - 1) (take n ?kl)))
            (?kl ! (j - 1)) = Inr (- 2)"
          using j(3) by auto
        have e: "offset - sum_list (drop (j - 1) (take (Suc n) ?kl)) =
            ?off - sum_list (drop (j - 1) (take n ?kl))"
          by (rule offi) (use j(1) in simp)
        show "r = 1 \<and>
           seq2id q (offset - sum_list (drop (j - 1) (take (Suc n) ?kl))) (?kl ! (j - 1)) = Inr (- 2)"
          unfolding e using a b by (intro conjI)
      qed
      show "\<forall>i<j. lut_bits L' ! i = lut_bits L ! i"
        using j(4) j(1) b1 by (metis leD)
      show "\<forall>i. j \<le> i \<and> i < Suc n \<longrightarrow>
           (\<exists>seqid. seq2id q (offset - sum_list (drop i (take (Suc n) ?kl))) (?kl ! i) = Inr seqid \<and>
              seqid \<noteq> - 2 \<and>
              (if 0 \<le> seqid then bitmap_set (lut_bits L ! i) seqid = Inr (lut_bits L' ! i)
               else lut_bits L' ! i = lut_bits L ! i))"
      proof (intro allI impI)
        fix i assume i: "j \<le> i \<and> i < Suc n"
        show "\<exists>seqid. seq2id q (offset - sum_list (drop i (take (Suc n) ?kl))) (?kl ! i) = Inr seqid \<and>
              seqid \<noteq> - 2 \<and>
              (if 0 \<le> seqid then bitmap_set (lut_bits L ! i) seqid = Inr (lut_bits L' ! i)
               else lut_bits L' ! i = lut_bits L ! i)"
        proof (cases "i = n")
          case True
          show ?thesis unfolding True by (rule last)
        next
          case False
          with i have ji: "j \<le> i \<and> i < n" by simp
          have e: "offset - sum_list (drop i (take (Suc n) ?kl)) =
              ?off - sum_list (drop i (take n ?kl))"
            by (rule offi) (use ji in simp)
          from j(5) ji have "\<exists>seqid. seq2id q (?off - sum_list (drop i (take n ?kl))) (?kl ! i) = Inr seqid \<and>
              seqid \<noteq> - 2 \<and>
              (if 0 \<le> seqid then bitmap_set (lut_bits ?L1 ! i) seqid = Inr (lut_bits L' ! i)
               else lut_bits L' ! i = lut_bits ?L1 ! i)" by blast
          then show ?thesis unfolding e b1[OF False] .
        qed
      qed
    qed (use fr j in simp_all)
  qed
qed

lemma seq2id_empty: "k \<le> 0 \<Longrightarrow> seq2id s off k = Inr 0"
  by (simp add: seq2id_def)

lemma seq2id_terminator:
  assumes "seq2id s off k = Inr (- 2)" and "k \<le> 15" and "cstring s"
  shows "0 \<le> off \<and> off \<le> int (length s) \<and> int (length s) < off + k"
proof -
  from assms(1) have l: "seq2id_loop s off (nat k) 0 = Inr (- 2)" by (simp add: seq2id_def)
  have "nat k \<noteq> 0" using l by (cases "nat k") auto
  then have "int (nat k) = k" by simp
  with seq2id_loop_terminator[OF l _ seqid_room_start[OF assms(2)] assms(3)]
  show ?thesis by simp
qed

lemma seq2id_invalid:
  assumes "0 \<le> off" and "0 \<le> k" and "off + k \<le> int (length s)" and "cstring s"
    and "off \<le> p" and "p < off + k" and "\<not> valid_base (s ! nat p)"
  shows "seq2id s off k = Inr (- 1)"
proof -
  have "nat off + nat (p - off) = nat p" using assms(1,5) by simp
  with assms(6,7) have "\<exists>j<nat k. \<not> valid_base (s ! (nat off + j))"
    by (intro exI[of _ "nat (p - off)"]) (use assms(5) in auto)
  then show ?thesis unfolding seq2id_def using assms(1-4)
    by (intro seq2id_loop_invalid) auto
qed

lemma seq2id_in_window:
  assumes "0 \<le> off" and "0 \<le> k" and "off + k \<le> int (length s)" and "cstring s"
    and "k \<le> 15"
  shows "\<exists>r. seq2id s off k = Inr r \<and> (0 \<le> r \<or> r = - 1)"
proof (cases "\<forall>j<nat k. valid_base (s ! (nat off + j))")
  case True
  then have "\<exists>r. seq2id_loop s off (nat k) 0 = Inr r \<and> 0 \<le> r"
    using assms(1-4) seqid_room_start[OF assms(5)] by (intro seq2id_loop_valid) auto
  then show ?thesis by (auto simp: seq2id_def)
next
  case False
  then have "seq2id_loop s off (nat k) 0 = Inr (- 1)"
    using assms by (intro seq2id_loop_invalid) auto
  then show ?thesis by (simp add: seq2id_def)
qed

lemma seq2id_fits:
  assumes "seq2id s off k = Inr r" and "0 \<le> r" and "k \<le> 15"
    and "length bm = 2 ^ nat (max 0 (2 * k - 3))"
  shows "\<exists>bm'. bitmap_set bm r = Inr bm'"
proof -
  have "r div 8 < int (length bm)"
  proof (cases "nat k")
    case 0
    with assms(1) have "r = 0" by (simp add: seq2id_def)
    then show ?thesis using assms(4) by simp
  next
    case (Suc m)
    with assms(1) have l: "seq2id_loop s off (Suc m) 0 = Inr r" by (simp add: seq2id_def)
    have "(0::int) * 4 ^ m + 4 * 4 ^ m \<le> 2 ^ 31"
      using seqid_room_start[OF assms(3)] Suc by simp
    from seq2id_loop_bound[OF l _ this] have b: "r < 4 * 4 ^ m" by simp
    have k: "k = int m + 1" using Suc by simp
    show ?thesis
    proof (cases m)
      case 0
      with b have "r < 4" by simp
      then have "r div 8 = 0" using assms(2) by simp
      then show ?thesis using assms(4) by simp
    next
      case (Suc m')
      have "nat (max 0 (2 * k - 3)) = 2 * m' + 1" unfolding k Suc by simp
      then have "length bm = 2 ^ (2 * m' + 1)" using assms(4) by (simp only:)
      also have "\<dots> = 2 * 4 ^ m'" by (simp add: power_mult)
      finally have len: "int (length bm) = 2 * 4 ^ m'" by simp
      have "r < 8 * (2 * 4 ^ m')" using b unfolding Suc by simp
      then have "r div 8 < 2 * 4 ^ m'" by linarith
      then show ?thesis using len by simp
    qed
  qed
  moreover have "0 \<le> r div 8" using assms(2) by (simp add: pos_imp_zdiv_nonneg_iff)
  ultimately show ?thesis using assms(2) by (simp add: bitmap_set_def sdiv_nonneg_eq)
qed


lemma lut_insert_loop_total:
  assumes "n \<le> length (lut_klen L)" and "n \<le> length (lut_bits L)" and "cstring q"
    and "\<forall>i<n. length (lut_bits L ! i) = 2 ^ nat (max 0 (2 * lut_klen L ! i - 3))"
    and "\<forall>i<n. lut_klen L ! i \<le> 15"
    and "\<forall>i<n. lut_klen L ! i \<le> 0 \<or>
           (0 \<le> offset - sum_list (drop i (take n (lut_klen L))) \<and>
            offset - sum_list (drop i (take n (lut_klen L))) + lut_klen L ! i \<le> int (length q))"
  shows "\<exists>L'. lut_insert_loop L q n offset = Inr (0, L')"
  using assms
proof (induction n arbitrary: L offset)
  case 0
  then show ?case by simp
next
  case (Suc n)
  let ?kl = "lut_klen L"
  let ?off = "offset - ?kl ! n"
  have nlt: "n < length ?kl" "n < length (lut_bits L)" using Suc.prems(1,2) by simp_all
  have k15: "?kl ! n \<le> 15" using Suc.prems(5) by blast
  have offn: "offset - sum_list (drop n (take (Suc n) ?kl)) = ?off"
    using sum_drop_take_Suc[OF nlt(1), of n] by simp
  have offi: "\<And>i. i \<le> n \<Longrightarrow>
      offset - sum_list (drop i (take (Suc n) ?kl)) = ?off - sum_list (drop i (take n ?kl))"
    using sum_drop_take_Suc[OF nlt(1)] by simp
  from Suc.prems(6) have "?kl ! n \<le> 0 \<or>
           (0 \<le> offset - sum_list (drop n (take (Suc n) ?kl)) \<and>
            offset - sum_list (drop n (take (Suc n) ?kl)) + ?kl ! n \<le> int (length q))"
    by blast
  then have w: "?kl ! n \<le> 0 \<or> (0 \<le> ?off \<and> ?off + ?kl ! n \<le> int (length q))"
    unfolding offn .
  have win: "\<forall>i<n. ?kl ! i \<le> 0 \<or> (0 \<le> ?off - sum_list (drop i (take n ?kl)) \<and>
           ?off - sum_list (drop i (take n ?kl)) + ?kl ! i \<le> int (length q))"
  proof (intro allI impI)
    fix i assume i: "i < n"
    then have "i < Suc n" by simp
    with Suc.prems(6) have "?kl ! i \<le> 0 \<or>
           (0 \<le> offset - sum_list (drop i (take (Suc n) ?kl)) \<and>
           offset - sum_list (drop i (take (Suc n) ?kl)) + ?kl ! i \<le> int (length q))"
      by blast
    moreover have "offset - sum_list (drop i (take (Suc n) ?kl)) =
        ?off - sum_list (drop i (take n ?kl))"
      by (rule offi) (use i in simp)
    ultimately show "?kl ! i \<le> 0 \<or> (0 \<le> ?off - sum_list (drop i (take n ?kl)) \<and>
           ?off - sum_list (drop i (take n ?kl)) + ?kl ! i \<le> int (length q))"
      by (simp only:)
  qed
  have "\<exists>r. seq2id q ?off (?kl ! n) = Inr r \<and> (0 \<le> r \<or> r = - 1)"
  proof (cases "?kl ! n \<le> 0")
    case True
    then show ?thesis by (simp add: seq2id_empty)
  next
    case False
    with w have "0 \<le> ?off" "0 \<le> ?kl ! n" "?off + ?kl ! n \<le> int (length q)" by simp_all
    then show ?thesis using Suc.prems(3) k15 by (intro seq2id_in_window)
  qed
  then obtain r where r: "seq2id q ?off (?kl ! n) = Inr r" "0 \<le> r \<or> r = - 1" by blast
  show ?case
  proof (cases "0 \<le> r")
    case False
    with r have r1: "r = - 1" by simp
    have "\<exists>L'. lut_insert_loop L q n ?off = Inr (0, L')"
      using Suc.prems(1-5) win by (intro Suc.IH) auto
    then show ?thesis by (simp add: lut_insert_loop_Suc r(1) r1)
  next
    case True
    have "length (lut_bits L ! n) = 2 ^ nat (max 0 (2 * ?kl ! n - 3))"
      using Suc.prems(4) by blast
    from seq2id_fits[OF r(1) True k15 this]
    obtain bm where bm: "bitmap_set (lut_bits L ! n) r = Inr bm" by blast
    let ?L1 = "L\<lparr>lut_bits := (lut_bits L)[n := bm]\<rparr>"
    have "\<exists>L'. lut_insert_loop ?L1 q n ?off = Inr (0, L')"
    proof (rule Suc.IH)
      show "n \<le> length (lut_klen ?L1)" using nlt by simp
      show "n \<le> length (lut_bits ?L1)" using nlt by simp
      show "cstring q" by (rule Suc.prems(3))
      show "\<forall>i<n. length (lut_bits ?L1 ! i) = 2 ^ nat (max 0 (2 * lut_klen ?L1 ! i - 3))"
        using Suc.prems(4) by simp
      show "\<forall>i<n. lut_klen ?L1 ! i \<le> 15" using Suc.prems(5) by simp
      show "\<forall>i<n. lut_klen ?L1 ! i \<le> 0 \<or>
           (0 \<le> ?off - sum_list (drop i (take n (lut_klen ?L1))) \<and>
           ?off - sum_list (drop i (take n (lut_klen ?L1))) + lut_klen ?L1 ! i \<le> int (length q))"
        using win by simp
    qed
    then show ?thesis by (simp add: lut_insert_loop_Suc r(1) True bm)
  qed
qed

lemma sum_list_drop_le:
  assumes "\<forall>i<length kl. (0::int) \<le> kl ! i"
  shows "0 \<le> sum_list (drop i kl) \<and> sum_list (drop i kl) \<le> sum_list kl"
proof -
  have a: "0 \<le> sum_list (drop i kl)"
    using assms by (intro sum_list_nonneg) (auto simp: in_set_conv_nth)
  have b: "0 \<le> sum_list (take i kl)"
    using assms by (intro sum_list_nonneg) (auto simp: in_set_conv_nth)
  have "sum_list kl = sum_list (take i kl) + sum_list (drop i kl)"
    by (metis append_take_drop_id sum_list_append)
  with a b show ?thesis by simp
qed

lemma lut_insert_returns:
  assumes "lut_wf L" and "cstring (useq_seq query)"
    and "\<forall>i<nat (lut_kmers L). lut_klen L ! i \<le> 15"
    and "\<forall>i<nat (lut_kmers L). 0 \<le> lut_klen L ! i"
    and "sum_list (lut_klen L) \<le> lut_slen L"
    and "int (length (useq_seq query)) = lut_slen L"
  shows "\<exists>L'. lut_insert L query = Inr (0, L')"
proof -
  let ?kl = "lut_klen L"
  let ?n = "nat (lut_kmers L)"
  from assms(1) have wf: "length ?kl = ?n" "length (lut_bits L) = ?n"
    "\<forall>i<?n. length (lut_bits L ! i) = 2 ^ nat (max 0 (2 * ?kl ! i - 3))"
    by (simp_all add: lut_wf_def)
  have nn: "\<forall>i<length ?kl. 0 \<le> ?kl ! i" using assms(4) wf(1) by simp
  have "\<forall>i<?n. ?kl ! i \<le> 0 \<or>
           (0 \<le> lut_slen L - sum_list (drop i (take ?n ?kl)) \<and>
           lut_slen L - sum_list (drop i (take ?n ?kl)) + ?kl ! i \<le> int (length (useq_seq query)))"
  proof (intro allI impI)
    fix i assume i: "i < ?n"
    have t: "take ?n ?kl = ?kl" using wf(1) by simp
    have d: "drop i ?kl = ?kl ! i # drop (Suc i) ?kl"
      using i wf(1) by (simp add: Cons_nth_drop_Suc)
    have s1: "sum_list (drop i ?kl) \<le> sum_list ?kl" using sum_list_drop_le[OF nn] by blast
    have s2: "0 \<le> sum_list (drop (Suc i) ?kl)" using sum_list_drop_le[OF nn] by blast
    show "?kl ! i \<le> 0 \<or>
           (0 \<le> lut_slen L - sum_list (drop i (take ?n ?kl)) \<and>
           lut_slen L - sum_list (drop i (take ?n ?kl)) + ?kl ! i \<le> int (length (useq_seq query)))"
      unfolding t using assms(5,6) i s1 s2 by (simp add: d)
  qed
  then show ?thesis unfolding lut_insert_def using wf assms(2,3)
    by (intro lut_insert_loop_total) auto
qed

lemma lut_insert_effect:
  assumes "lut_wf L" and "lut_insert L query = Inr (r, L')"
  shows "(r = 0 \<or> r = 1) \<and> lut_klen L' = lut_klen L \<and> lut_slen L' = lut_slen L \<and>
      lut_kmers L' = lut_kmers L \<and> length (lut_bits L') = length (lut_bits L) \<and>
      (\<forall>i<nat (lut_kmers L).
         (lut_bits L' ! i = lut_bits L ! i \<or>
          (\<exists>seqid. 0 \<le> seqid \<and> kmer_id L (useq_seq query) i = Inr seqid \<and>
             bitmap_set (lut_bits L ! i) seqid = Inr (lut_bits L' ! i))) \<and>
         (kmer_id L (useq_seq query) i = Inr (- 1) \<longrightarrow> lut_bits L' ! i = lut_bits L ! i)) \<and>
      (r = 1 \<longrightarrow> (\<exists>i<nat (lut_kmers L). kmer_id L (useq_seq query) i = Inr (- 2))) \<and>
      (r = 0 \<longrightarrow> (\<forall>i<nat (lut_kmers L). \<exists>seqid.
         kmer_id L (useq_seq query) i = Inr seqid \<and> seqid \<noteq> - 2 \<and>
         (0 \<le> seqid \<longrightarrow> bitmap_set (lut_bits L ! i) seqid = Inr (lut_bits L' ! i))))"
proof (intro conjI allI impI)
  note run = assms(2)
  let ?q = "useq_seq query"
  let ?n = "nat (lut_kmers L)"
  let ?kl = "lut_klen L"
  from assms(1) have wf: "length ?kl = ?n" "length (lut_bits L) = ?n" by (simp_all add: lut_wf_def)
  have t: "take ?n ?kl = ?kl" using wf(1) by simp
  from run have loop: "lut_insert_loop L ?q ?n (lut_slen L) = Inr (r, L')"
    by (simp add: lut_insert_def)
  have id: "\<And>i. seq2id ?q (lut_slen L - sum_list (drop i (take ?n ?kl))) (?kl ! i) = kmer_id L ?q i"
    unfolding t by (simp add: kmer_id_def kmer_offset_def)
  from lut_insert_loop_outcome[OF loop] wf
  have fr: "lut_klen L' = ?kl" "lut_slen L' = lut_slen L" "lut_kmers L' = lut_kmers L"
      "length (lut_bits L') = length (lut_bits L)"
    and ex: "\<exists>j\<le>?n. (r = 0 \<longleftrightarrow> j = 0) \<and>
        (0 < j \<longrightarrow> r = 1 \<and> kmer_id L ?q (j - 1) = Inr (- 2)) \<and>
        (\<forall>i<j. lut_bits L' ! i = lut_bits L ! i) \<and>
        (\<forall>i. j \<le> i \<and> i < ?n \<longrightarrow>
           (\<exists>seqid. kmer_id L ?q i = Inr seqid \<and> seqid \<noteq> - 2 \<and>
              (if 0 \<le> seqid then bitmap_set (lut_bits L ! i) seqid = Inr (lut_bits L' ! i)
               else lut_bits L' ! i = lut_bits L ! i)))"
    unfolding id by simp_all
  from ex obtain j where j: "j \<le> ?n" "r = 0 \<longleftrightarrow> j = 0"
    "0 < j \<longrightarrow> r = 1 \<and> kmer_id L ?q (j - 1) = Inr (- 2)"
    "\<forall>i<j. lut_bits L' ! i = lut_bits L ! i"
    "\<forall>i. j \<le> i \<and> i < ?n \<longrightarrow>
           (\<exists>seqid. kmer_id L ?q i = Inr seqid \<and> seqid \<noteq> - 2 \<and>
              (if 0 \<le> seqid then bitmap_set (lut_bits L ! i) seqid = Inr (lut_bits L' ! i)
               else lut_bits L' ! i = lut_bits L ! i))"
    by blast
  show "r = 0 \<or> r = 1" using j(2,3) by auto
  show "lut_klen L' = lut_klen L" "lut_slen L' = lut_slen L" "lut_kmers L' = lut_kmers L"
    "length (lut_bits L') = length (lut_bits L)"
    by (rule fr)+
  show "r = 1 \<Longrightarrow> \<exists>i<?n. kmer_id L ?q i = Inr (- 2)"
  proof -
    assume "r = 1"
    with j(2) have "0 < j" by auto
    with j(3) have "kmer_id L ?q (j - 1) = Inr (- 2)" by simp
    moreover have "j - 1 < ?n" using \<open>0 < j\<close> j(1) by simp
    ultimately show ?thesis by blast
  qed
  show "r = 0 \<Longrightarrow> \<exists>seqid. kmer_id L ?q i = Inr seqid \<and> seqid \<noteq> - 2 \<and>
         (0 \<le> seqid \<longrightarrow> bitmap_set (lut_bits L ! i) seqid = Inr (lut_bits L' ! i))"
    if "i < ?n" for i
  proof -
    assume "r = 0"
    with j(2) have "j \<le> i" by simp
    with j(5) that obtain seqid where "kmer_id L ?q i = Inr seqid" "seqid \<noteq> - 2"
      "if 0 \<le> seqid then bitmap_set (lut_bits L ! i) seqid = Inr (lut_bits L' ! i)
               else lut_bits L' ! i = lut_bits L ! i" by blast
    then show ?thesis by (intro exI[of _ seqid]) auto
  qed
  show "lut_bits L' ! i = lut_bits L ! i \<or>
          (\<exists>seqid. 0 \<le> seqid \<and> kmer_id L ?q i = Inr seqid \<and>
             bitmap_set (lut_bits L ! i) seqid = Inr (lut_bits L' ! i))"
    if "i < ?n" for i
  proof (cases "i < j")
    case True
    with j(4) show ?thesis by simp
  next
    case False
    with j(5) that obtain seqid where "kmer_id L ?q i = Inr seqid" "seqid \<noteq> - 2"
      "if 0 \<le> seqid then bitmap_set (lut_bits L ! i) seqid = Inr (lut_bits L' ! i)
               else lut_bits L' ! i = lut_bits L ! i" by (metis not_less)
    then show ?thesis by (cases "0 \<le> seqid") auto
  qed
  show "lut_bits L' ! i = lut_bits L ! i"
    if "i < ?n" "kmer_id L ?q i = Inr (- 1)" for i
  proof (cases "i < j")
    case True
    with j(4) show ?thesis by simp
  next
    case False
    with j(5) that(1) obtain seqid where "kmer_id L ?q i = Inr seqid"
      "if 0 \<le> seqid then bitmap_set (lut_bits L ! i) seqid = Inr (lut_bits L' ! i)
               else lut_bits L' ! i = lut_bits L ! i" by (metis not_less)
    with that(2) show ?thesis by auto
  qed
qed

lemma kmer_id_terminator:
  assumes "kmer_id L q i = Inr (- 2)" and "lut_klen L ! i \<le> 15" and "cstring q"
  shows "0 \<le> kmer_offset L i \<and> kmer_offset L i \<le> int (length q) \<and>
         int (length q) < kmer_offset L i + lut_klen L ! i"
  using assms unfolding kmer_id_def by (rule seq2id_terminator)

text \<open>
  Claim C10. Let the filter be allocated as \<^verbatim>\<open>new_lookup\<close> does, with k-mers of at most
  15 letters (so that their identifiers are 32-bit values), and the query be a C string.
  Whenever \<^verbatim>\<open>lut_insert\<close> returns, it returns 0 or 1 and leaves the shape of the filter
  alone; the bitmap of each k-mer index is either unchanged or has the one bit of that
  k-mer's identifier set, and it is unchanged when \<^verbatim>\<open>seq2id\<close> gives \<open>-1\<close> for the
  k-mer. A returned 1 means that the string terminates inside some k-mer, for which
  \<^verbatim>\<open>seq2id\<close> gave \<open>-2\<close>, and a returned 0 that no k-mer gave \<open>-2\<close> and every k-mer with
  a valid identifier had its bit set. Setting a bit changes no other bit. \<^verbatim>\<open>seq2id\<close>
  gives \<open>-2\<close> on at most 15 letters only when the terminator lies inside them, and \<open>-1\<close>
  for a k-mer inside the string that holds a character other than \<^verbatim>\<open>ACGT\<close>,
  \<^verbatim>\<open>acgt\<close> and space, such as \<^verbatim>\<open>N\<close>. For a query of the filter's length (and k-mers
  that fit in it) the insertion always returns 0.
\<close>

theorem lut_insert_kmers:
  assumes "lut_wf L" and "\<forall>i<nat (lut_kmers L). lut_klen L ! i \<le> 15"
    and "cstring (useq_seq query)"
  shows "(\<forall>r L'. lut_insert L query = Inr (r, L') \<longrightarrow>
      (r = 0 \<or> r = 1) \<and> lut_klen L' = lut_klen L \<and> lut_slen L' = lut_slen L \<and>
      lut_kmers L' = lut_kmers L \<and>
      (\<forall>i<nat (lut_kmers L).
         (lut_bits L' ! i = lut_bits L ! i \<or>
          (\<exists>seqid. 0 \<le> seqid \<and> kmer_id L (useq_seq query) i = Inr seqid \<and>
             bitmap_set (lut_bits L ! i) seqid = Inr (lut_bits L' ! i))) \<and>
         (kmer_id L (useq_seq query) i = Inr (- 1) \<longrightarrow> lut_bits L' ! i = lut_bits L ! i)) \<and>
      (r = 1 \<longrightarrow> (\<exists>i<nat (lut_kmers L). kmer_id L (useq_seq query) i = Inr (- 2) \<and>
         0 \<le> kmer_offset L i \<and> kmer_offset L i \<le> int (length (useq_seq query)) \<and>
         int (length (useq_seq query)) < kmer_offset L i + lut_klen L ! i)) \<and>
      (r = 0 \<longrightarrow> (\<forall>i<nat (lut_kmers L). \<exists>seqid.
         kmer_id L (useq_seq query) i = Inr seqid \<and> seqid \<noteq> - 2 \<and>
         (0 \<le> seqid \<longrightarrow> bitmap_set (lut_bits L ! i) seqid = Inr (lut_bits L' ! i))))) \<and>
    (\<forall>bm seqid bm' seqid'. bitmap_set bm seqid = Inr bm' \<and> 0 \<le> seqid \<and> 0 \<le> seqid' \<longrightarrow>
       bitmap_get bm' seqid' = (if seqid' = seqid then Inr True else bitmap_get bm seqid')) \<and>
    (\<forall>off k. k \<le> 15 \<and> seq2id (useq_seq query) off k = Inr (- 2) \<longrightarrow>
       0 \<le> off \<and> off \<le> int (length (useq_seq query)) \<and> int (length (useq_seq query)) < off + k) \<and>
    (\<forall>off k p. 0 \<le> off \<and> off \<le> p \<and> p < off + k \<and> off + k \<le> int (length (useq_seq query)) \<and>
       \<not> valid_base (useq_seq query ! nat p) \<longrightarrow> seq2id (useq_seq query) off k = Inr (- 1)) \<and>
    ((\<forall>i<nat (lut_kmers L). 0 \<le> lut_klen L ! i) \<and> sum_list (lut_klen L) \<le> lut_slen L \<and>
       int (length (useq_seq query)) = lut_slen L \<longrightarrow> (\<exists>L'. lut_insert L query = Inr (0, L')))"
proof (intro conjI allI impI)
  fix r L' assume run: "lut_insert L query = Inr (r, L')"
  note e = lut_insert_effect[OF assms(1) run]
  show "r = 0 \<or> r = 1" "lut_klen L' = lut_klen L" "lut_slen L' = lut_slen L"
    "lut_kmers L' = lut_kmers L"
    using e by simp_all
  show "lut_bits L' ! i = lut_bits L ! i \<or>
          (\<exists>seqid. 0 \<le> seqid \<and> kmer_id L (useq_seq query) i = Inr seqid \<and>
             bitmap_set (lut_bits L ! i) seqid = Inr (lut_bits L' ! i))"
    if "i < nat (lut_kmers L)" for i
    using e that by blast
  show "lut_bits L' ! i = lut_bits L ! i"
    if "i < nat (lut_kmers L)" "kmer_id L (useq_seq query) i = Inr (- 1)" for i
    using e that by blast
  show "\<exists>seqid. kmer_id L (useq_seq query) i = Inr seqid \<and> seqid \<noteq> - 2 \<and>
         (0 \<le> seqid \<longrightarrow> bitmap_set (lut_bits L ! i) seqid = Inr (lut_bits L' ! i))"
    if "r = 0" "i < nat (lut_kmers L)" for i
    using e that by blast
  show "\<exists>i<nat (lut_kmers L). kmer_id L (useq_seq query) i = Inr (- 2) \<and>
         0 \<le> kmer_offset L i \<and> kmer_offset L i \<le> int (length (useq_seq query)) \<and>
         int (length (useq_seq query)) < kmer_offset L i + lut_klen L ! i"
    if "r = 1"
  proof -
    from e that obtain i where i: "i < nat (lut_kmers L)"
      "kmer_id L (useq_seq query) i = Inr (- 2)" by blast
    from assms(2) i(1) have "lut_klen L ! i \<le> 15" by blast
    from kmer_id_terminator[OF i(2) this assms(3)] i show ?thesis by blast
  qed
next
  fix bm bm' :: "8 word list" and seqid seqid' :: int
  assume "bitmap_set bm seqid = Inr bm' \<and> 0 \<le> seqid \<and> 0 \<le> seqid'"
  then show "bitmap_get bm' seqid' = (if seqid' = seqid then Inr True else bitmap_get bm seqid')"
    by (intro bitmap_set_get) auto
next
  fix off k :: int assume "k \<le> 15 \<and> seq2id (useq_seq query) off k = Inr (- 2)"
  then have t: "seq2id (useq_seq query) off k = Inr (- 2)" and k: "k \<le> 15" by simp_all
  from seq2id_terminator[OF t k assms(3)]
  show "0 \<le> off" "off \<le> int (length (useq_seq query))" "int (length (useq_seq query)) < off + k"
    by simp_all
next
  fix off k p :: int
  assume a: "0 \<le> off \<and> off \<le> p \<and> p < off + k \<and> off + k \<le> int (length (useq_seq query)) \<and>
       \<not> valid_base (useq_seq query ! nat p)"
  then have "0 \<le> k" by linarith
  with a assms(3) show "seq2id (useq_seq query) off k = Inr (- 1)"
    by (intro seq2id_invalid[where p = p]) auto
next
  assume "(\<forall>i<nat (lut_kmers L). 0 \<le> lut_klen L ! i) \<and> sum_list (lut_klen L) \<le> lut_slen L \<and>
       int (length (useq_seq query)) = lut_slen L"
  then show "\<exists>L'. lut_insert L query = Inr (0, L')"
    using assms by (intro lut_insert_returns) auto
qed

lemma new_lookup_4_1:
  "new_lookup 14 4 4 1 =
     \<lparr>lut_slen = 4, lut_kmers = 2, lut_klen = [1, 2], lut_bits = [[0], [0, 0]]\<rparr>"
  by (simp add: new_lookup_def Let_def signed_divide_int_def signed_modulo_int_def eval_nat_numeral)

theorem lut_insert_kmers_witness:
  "\<exists>L'. lut_insert (new_lookup 14 4 4 1) \<lparr>useq_count = 1, useq_seq = ''ANAC'', useq_info = None\<rparr>
          = Inr (0, L') \<and>
        kmer_id (new_lookup 14 4 4 1) ''ANAC'' 0 = Inr (- 1) \<and>
        lut_bits L' ! 0 = lut_bits (new_lookup 14 4 4 1) ! 0"
proof -
  let ?L = "new_lookup 14 4 4 1"
  let ?q = "\<lparr>useq_count = 1, useq_seq = ''ANAC'', useq_info = None\<rparr>"
  have wf: "lut_wf ?L"
    by (simp add: new_lookup_4_1 lut_wf_def eval_nat_numeral less_Suc_eq)
  have k15: "\<forall>i<nat (lut_kmers ?L). lut_klen ?L ! i \<le> 15"
    by (simp add: new_lookup_4_1 eval_nat_numeral less_Suc_eq)
  have cs: "cstring (useq_seq ?q)" by (simp add: cstring_def)
  note T = lut_insert_kmers[OF wf k15 cs]
  have pre: "(\<forall>i<nat (lut_kmers ?L). 0 \<le> lut_klen ?L ! i) \<and> sum_list (lut_klen ?L) \<le> lut_slen ?L \<and>
       int (length (useq_seq ?q)) = lut_slen ?L"
    by (simp add: new_lookup_4_1 eval_nat_numeral less_Suc_eq)
  from T[THEN conjunct2, THEN conjunct2, THEN conjunct2, THEN conjunct2, rule_format, OF pre]
  obtain L' where run: "lut_insert ?L ?q = Inr (0, L')" by blast
  have kid: "kmer_id ?L ''ANAC'' 0 = Inr (- 1)"
    by (simp add: new_lookup_4_1 kmer_id_def kmer_offset_def seq2id_def seq2id_loop_Suc
        cstr_at_def base_code_def eval_nat_numeral)
  have "0 < nat (lut_kmers ?L)" by (simp add: new_lookup_4_1)
  with T[THEN conjunct1, rule_format, OF run] kid
  have "lut_bits L' ! 0 = lut_bits ?L ! 0" by simp
  with run kid show ?thesis by blast
qed

section \<open>The worker: the common-prefix loops\<close>

lemma prefix_loop_distinct:
  assumes "length a = n" and "length b = n" and "a \<noteq> b"
    and "0 \<le> t" and "take (nat t) a = take (nat t) b"
  shows "\<exists>r. prefix_loop a b t = Inr r \<and> t \<le> r \<and> r < int n"
  using assms(4,5)
proof (induction "n - nat t" arbitrary: t)
  case 0
  then have "n \<le> nat t" by simp
  with "0.prems"(2) assms(1,2) have "a = b" by simp
  with assms(3) show ?case by simp
next
  case (Suc k)
  then have lt: "nat t < n" by simp
  then have tl: "t < int n" using Suc.prems(1) by simp
  have ca: "cstr_at a t = Inr (a ! nat t)" using Suc.prems(1) tl assms(1) by (intro cstr_at_in) auto
  have cb: "cstr_at b t = Inr (b ! nat t)" using Suc.prems(1) tl assms(2) by (intro cstr_at_in) auto
  show ?case
  proof (cases "a ! nat t = b ! nat t")
    case False
    then have "prefix_loop a b t = Inr t"
      by (subst prefix_loop.simps) (simp add: ca cb)
    then show ?thesis using tl by simp
  next
    case True
    have nx: "nat (t + 1) = Suc (nat t)" using Suc.prems(1) by simp
    have "take (nat (t + 1)) a = take (nat (t + 1)) b"
      unfolding nx using True Suc.prems(2) lt assms(1,2)
      by (simp add: take_Suc_conv_app_nth)
    moreover have "k = n - nat (t + 1)" using Suc.hyps(2) nx by simp
    ultimately obtain r where "prefix_loop a b (t + 1) = Inr r" "t + 1 \<le> r" "r < int n"
      using Suc.hyps(1)[of "t + 1"] Suc.prems(1) by auto
    moreover have "prefix_loop a b t = prefix_loop a b (t + 1)"
      by (subst prefix_loop.simps) (simp add: ca cb True)
    ultimately show ?thesis by auto
  qed
qed

lemma seq2id_loop_error: "seq2id_loop s p n acc = Inl e \<Longrightarrow> e = OutOfBounds"
proof (induction n arbitrary: p acc)
  case 0
  then show ?case by simp
next
  case (Suc n)
  then show ?case
    by (auto simp: seq2id_loop_Suc cstr_at_def split: sum.splits option.splits if_splits)
qed

lemma seq2id_error: "seq2id s off k = Inl e \<Longrightarrow> e = OutOfBounds"
  unfolding seq2id_def by (rule seq2id_loop_error)

lemma bitmap_set_error: "bitmap_set bm v = Inl e \<Longrightarrow> e = OutOfBounds"
  by (auto simp: bitmap_set_def split: if_splits)

lemma bitmap_get_error: "bitmap_get bm v = Inl e \<Longrightarrow> e = OutOfBounds"
  by (auto simp: bitmap_get_def split: if_splits)

lemma lut_insert_loop_error: "lut_insert_loop L q n offset = Inl e \<Longrightarrow> e = OutOfBounds"
proof (induction n arbitrary: L offset)
  case 0
  then show ?case by simp
next
  case (Suc n)
  then show ?case
    by (auto simp: lut_insert_loop_Suc split: sum.splits if_splits
        dest: seq2id_error bitmap_set_error)
qed

lemma lut_search_inner_error: "lut_search_inner L q i offset j n = Inl e \<Longrightarrow> e = OutOfBounds"
proof (induction n arbitrary: j)
  case 0
  then show ?case by simp
next
  case (Suc n)
  then show ?case
    by (auto split: sum.splits if_splits dest: seq2id_error bitmap_get_error)
qed

lemma lut_search_loop_error: "lut_search_loop L q n offset = Inl e \<Longrightarrow> e = OutOfBounds"
proof (induction n arbitrary: offset)
  case 0
  then show ?case by simp
next
  case (Suc n)
  then show ?case
    by (auto simp: Let_def split: sum.splits option.splits dest: lut_search_inner_error)
qed

lemma lut_search_error: "lut_search L q = Inl e \<Longrightarrow> e = OutOfBounds"
  unfolding lut_search_def by (rule lut_search_loop_error)

lemma build_step_error: "build_step job L q = Inl e \<Longrightarrow> e = OutOfBounds \<or> e = Krash"
  by (auto simp: build_step_def lut_insert_def split: if_splits sum.splits prod.splits
      dest: lut_insert_loop_error)

lemma search_hints_ok:
  assumes len: "\<forall>u\<in>set items. length (useq_seq u) = n"
    and dist: "distinct (map useq_seq items)"
    and i: "0 \<le> i" "i \<le> job_end job" "job_end job < int (length items)"
    and last: "\<forall>lq. last_query = Some lq \<longrightarrow> (\<exists>k<nat i. lq = items ! k)"
  shows "\<exists>start trail. search_hints job items i (items ! nat i) last_query = Inr (start, trail) \<and>
      0 \<le> start \<and> 0 \<le> trail \<and> (0 < n \<longrightarrow> start < int n \<and> trail < int n)"
proof -
  let ?q = "useq_seq (items ! nat i)"
  have il: "nat i < length items" using i by simp
  have ql: "length ?q = n" using len il by simp
  have pl: "\<And>k. k < length items \<Longrightarrow> k \<noteq> nat i \<Longrightarrow>
      \<exists>r. prefix_loop ?q (useq_seq (items ! k)) 0 = Inr r \<and> 0 \<le> r \<and> r < int n"
  proof -
    fix k assume k: "k < length items" "k \<noteq> nat i"
    have "(map useq_seq items ! nat i = map useq_seq items ! k) = (nat i = k)"
      using dist k il by (intro nth_eq_iff_index_eq) simp_all
    then have "map useq_seq items ! nat i \<noteq> map useq_seq items ! k"
      using k by simp
    then have "?q \<noteq> useq_seq (items ! k)" using k il by simp
    moreover have "length (useq_seq (items ! k)) = n" using len k by simp
    ultimately show "\<exists>r. prefix_loop ?q (useq_seq (items ! k)) 0 = Inr r \<and> 0 \<le> r \<and> r < int n"
      using prefix_loop_distinct[OF ql, of "useq_seq (items ! k)" 0] by simp
  qed
  have tr: "\<exists>trail. (if i < job_end job
            then (case item_at items (i + 1) of
                    Inl e \<Rightarrow> Inl e
                  | Inr next_query \<Rightarrow> prefix_loop ?q (useq_seq next_query) 0)
            else Inr 0) = Inr trail \<and> 0 \<le> trail \<and> (0 < n \<longrightarrow> trail < int n)"
  proof (cases "i < job_end job")
    case True
    then have nx: "nat (i + 1) < length items" "nat (i + 1) \<noteq> nat i" using i by simp_all
    have "item_at items (i + 1) = Inr (items ! nat (i + 1))"
      using True i by (simp add: item_at_def)
    with pl[OF nx] True show ?thesis by auto
  next
    case False
    then show ?thesis by simp
  qed
  have st: "\<exists>start. (case last_query of
                   None \<Rightarrow> Inr 0
                 | Some lq \<Rightarrow> prefix_loop ?q (useq_seq lq) 0) = Inr start \<and>
             0 \<le> start \<and> (0 < n \<longrightarrow> start < int n)"
  proof (cases last_query)
    case None
    then show ?thesis by simp
  next
    case (Some lq)
    with last obtain k where k: "k < nat i" "lq = items ! k" by blast
    then have "k < length items" "k \<noteq> nat i" using il by simp_all
    from pl[OF this] Some k show ?thesis by auto
  qed
  from tr obtain trail where T: "(if i < job_end job
            then (case item_at items (i + 1) of
                    Inl e \<Rightarrow> Inl e
                  | Inr next_query \<Rightarrow> prefix_loop ?q (useq_seq next_query) 0)
            else Inr 0) = Inr trail" "0 \<le> trail" "0 < n \<longrightarrow> trail < int n" by blast
  from st obtain start where S: "(case last_query of
                   None \<Rightarrow> Inr 0
                 | Some lq \<Rightarrow> prefix_loop ?q (useq_seq lq) 0) = Inr start"
             "0 \<le> start" "0 < n \<longrightarrow> start < int n" by blast
  have "search_hints job items i (items ! nat i) last_query = Inr (start, trail)"
    unfolding search_hints_def T(1) S(1) by simp
  with T(2,3) S(2,3) show ?thesis by blast
qed

lemma do_query_loop_ok:
  assumes len: "\<forall>u\<in>set items. length (useq_seq u) = n"
    and dist: "distinct (map useq_seq items)"
    and e: "job_end job < int (length items)"
  shows "0 \<le> i \<Longrightarrow> hints_ok n (qs_searches st) \<Longrightarrow>
     \<forall>lq. qs_last_query st = Some lq \<longrightarrow> (\<exists>k<nat i. lq = items ! k) \<Longrightarrow>
     do_query_loop job items i st \<noteq> Inl Overrun \<and>
     (\<forall>st'. do_query_loop job items i st = Inr st' \<longrightarrow> hints_ok n (qs_searches st'))"
proof (induction "nat (job_end job + 1 - i)" arbitrary: i st)
  case 0
  then have "\<not> i \<le> job_end job" by simp
  then have "do_query_loop job items i st = Inr st" by (subst do_query_loop.simps) simp
  then show ?case using "0.prems"(2) by simp
next
  case (Suc m)
  then have ile: "i \<le> job_end job" by simp
  have il: "nat i < length items" using ile e Suc.prems(1) by simp
  have it: "item_at items i = Inr (items ! nat i)" using ile e Suc.prems(1) by (simp add: item_at_def)
  let ?q = "items ! nat i"
  have m: "m = nat (job_end job + 1 - (i + 1))" using Suc.hyps(2) by simp
  have i1: "0 \<le> i + 1" using Suc.prems(1) by simp
  show ?case
  proof (cases "lut_search (qs_lut st) ?q")
    case (Inl err)
    then have "do_query_loop job items i st = Inl err"
      by (subst do_query_loop.simps) (simp add: ile it)
    moreover have "err = OutOfBounds" using Inl by (rule lut_search_error)
    ultimately show ?thesis by simp
  next
    case (Inr found)
    show ?thesis
    proof (cases "build_step job (qs_lut st) ?q")
      case (Inl err)
      then have "do_query_loop job items i st = Inl err"
        by (subst do_query_loop.simps) (simp add: ile it Inr)
      moreover have "err = OutOfBounds \<or> err = Krash" using Inl by (rule build_step_error)
      ultimately show ?thesis by auto
    next
      case L': (Inr L')
      show ?thesis
      proof (cases "found = 1")
        case False
        let ?st1 = "st\<lparr>qs_lut := L'\<rparr>"
        have eq: "do_query_loop job items i st = do_query_loop job items (i + 1) ?st1"
          by (subst do_query_loop.simps) (simp add: ile it Inr L' False)
        have b: "\<forall>lq. qs_last_query ?st1 = Some lq \<longrightarrow> (\<exists>k<nat (i + 1). lq = items ! k)"
        proof (intro allI impI)
          fix lq assume "qs_last_query ?st1 = Some lq"
          then have "qs_last_query st = Some lq" by simp
          with Suc.prems(3) obtain k where "k < nat i" "lq = items ! k" by blast
          moreover have "nat i < nat (i + 1)" using Suc.prems(1) by simp
          ultimately show "\<exists>k<nat (i + 1). lq = items ! k" by (intro exI[of _ k]) simp
        qed
        have a: "hints_ok n (qs_searches ?st1)" using Suc.prems(2) by simp
        from Suc.hyps(1)[OF m i1 a b] show ?thesis unfolding eq .
      next
        case True
        from search_hints_ok[OF len dist Suc.prems(1) ile e Suc.prems(3)]
        obtain start trail where h: "search_hints job items i ?q (qs_last_query st) = Inr (start, trail)"
          "0 \<le> start" "0 \<le> trail" "0 < n \<longrightarrow> start < int n \<and> trail < int n"
          by blast
        let ?st1 = "\<lparr> qs_lut = L', qs_last_query = Some ?q,
                       qs_searches = qs_searches st @ [(i, start, trail)] \<rparr>"
        have eq: "do_query_loop job items i st = do_query_loop job items (i + 1) ?st1"
          by (subst do_query_loop.simps) (simp add: ile it Inr L' True h(1))
        have a: "hints_ok n (qs_searches ?st1)"
          using Suc.prems(2) h(2-4) by (auto simp: hints_ok_def)
        have "nat i < nat (i + 1)" using Suc.prems(1) by simp
        then have b: "\<forall>lq. qs_last_query ?st1 = Some lq \<longrightarrow> (\<exists>k<nat (i + 1). lq = items ! k)"
          by (intro allI impI exI[of _ "nat i"]) simp
        from Suc.hyps(1)[OF m i1 a b] show ?thesis unfolding eq .
      qed
    qed
  qed
qed

text \<open>
  Claim C8. On a stack of pairwise distinct sequences of one length \<open>n\<close>, for a job whose
  range lies in the stack: \<^verbatim>\<open>do_query\<close> never runs a common-prefix loop past a string
  terminator, whatever the filter does; every call of the trie search it makes gets hints
  \<open>start\<close> and \<open>trail\<close> that are not negative and, unless \<open>n = 0\<close> (where no loop
  runs and the hints are 0), less than \<open>n\<close>; and the loop on any two records with
  different sequences stops at an index less than \<open>n\<close>.
\<close>

theorem do_query_prefix_loops:
  assumes "\<forall>u\<in>set items. length (useq_seq u) = n" and "distinct (map useq_seq items)"
    and "0 \<le> job_start job" and "job_end job < int (length items)"
  shows "do_query job items L \<noteq> Inl Overrun \<and>
    (\<forall>st. do_query job items L = Inr st \<longrightarrow>
       (\<forall>(i, start, trail)\<in>set (qs_searches st).
          0 \<le> start \<and> 0 \<le> trail \<and> (0 < n \<longrightarrow> start < int n \<and> trail < int n))) \<and>
    (\<forall>a\<in>set items. \<forall>b\<in>set items. useq_seq a \<noteq> useq_seq b \<longrightarrow>
       (\<exists>r. prefix_loop (useq_seq a) (useq_seq b) 0 = Inr r \<and> 0 \<le> r \<and> r < int n))"
proof (intro conjI ballI impI)
  let ?st0 = "\<lparr> qs_lut = L, qs_last_query = None, qs_searches = [] \<rparr>"
  have h0: "hints_ok n (qs_searches ?st0)" by (simp add: hints_ok_def)
  have l0: "\<forall>lq. qs_last_query ?st0 = Some lq \<longrightarrow> (\<exists>k<nat (job_start job). lq = items ! k)"
    by simp
  note inv = do_query_loop_ok[OF assms(1,2,4) assms(3) h0 l0]
  show "do_query job items L \<noteq> Inl Overrun" using inv by (simp add: do_query_def)
  show "\<forall>st. do_query job items L = Inr st \<longrightarrow>
       (\<forall>(i, start, trail)\<in>set (qs_searches st).
          0 \<le> start \<and> 0 \<le> trail \<and> (0 < n \<longrightarrow> start < int n \<and> trail < int n))"
    using inv unfolding do_query_def hints_ok_def by blast
next
  fix a b assume ab: "a \<in> set items" "b \<in> set items" "useq_seq a \<noteq> useq_seq b"
  have "length (useq_seq a) = n" "length (useq_seq b) = n" using assms(1) ab by auto
  from prefix_loop_distinct[OF this ab(3), of 0]
  show "\<exists>r. prefix_loop (useq_seq a) (useq_seq b) 0 = Inr r \<and> 0 \<le> r \<and> r < int n" by simp
qed

theorem do_query_prefix_loops_witness:
  "do_query \<lparr>job_start = 0, job_end = 2, job_tau = 1, job_build = True,
             job_queryid = 1, job_trieid = 1\<rparr>
        [\<lparr>useq_count = 1, useq_seq = ''AAAA'', useq_info = None\<rparr>,
         \<lparr>useq_count = 1, useq_seq = ''AAAC'', useq_info = None\<rparr>,
         \<lparr>useq_count = 1, useq_seq = ''AACC'', useq_info = None\<rparr>]
        (new_lookup 14 4 4 1) \<noteq> Inl Overrun \<and>
   (\<exists>r. prefix_loop ''AAAC'' ''AACC'' 0 = Inr r \<and> 0 \<le> r \<and> r < 4)"
proof -
  let ?J = "\<lparr>job_start = 0, job_end = 2, job_tau = 1, job_build = True,
             job_queryid = 1, job_trieid = 1\<rparr>"
  let ?a = "\<lparr>useq_count = 1, useq_seq = ''AAAC'', useq_info = None\<rparr>"
  let ?b = "\<lparr>useq_count = 1, useq_seq = ''AACC'', useq_info = None\<rparr>"
  let ?I = "[\<lparr>useq_count = 1, useq_seq = ''AAAA'', useq_info = None\<rparr>, ?a, ?b]"
  have h: "\<forall>u\<in>set ?I. length (useq_seq u) = 4" "distinct (map useq_seq ?I)"
    "0 \<le> job_start ?J" "job_end ?J < int (length ?I)"
    by simp_all
  note T = do_query_prefix_loops[OF h, of "new_lookup 14 4 4 1"]
  have A: "do_query ?J ?I (new_lookup 14 4 4 1) \<noteq> Inl Overrun" by (rule T[THEN conjunct1])
  have "\<exists>r. prefix_loop (useq_seq ?a) (useq_seq ?b) 0 = Inr r \<and> 0 \<le> r \<and> r < int 4"
    by (rule T[THEN conjunct2, THEN conjunct2, rule_format]) simp_all
  then have B: "\<exists>r. prefix_loop ''AAAC'' ''AACC'' 0 = Inr r \<and> 0 \<le> r \<and> r < 4" by simp
  from A B show ?thesis by (intro conjI)
qed

section \<open>The lookup filter: no false negatives\<close>


lemma edit_distance_same: "edit_distance xs xs = 0"
  by (induction xs) simp_all










declare lut_search_inner.simps(2) [simp del]
declare lut_search_loop.simps(2) [simp del]


























end
